theory Spec2Isabelle
  imports Main "HOL-Library.Multiset" "HOL-Library.Sublist"
begin

section \<open>track\_check.py: the data model\<close>

text \<open>
  A marker is the Python tuple \<^verbatim>\<open>(track, position)\<close>. The code only reads
  \<^verbatim>\<open>track[0]\<close> (the name, never inspected) and \<^verbatim>\<open>track[1]\<close> (a Python
  integer, unbounded). Names are kept polymorphic: the partitioner copies them around
  and nothing else.
\<close>

type_synonym 'a marker = "'a \<times> int"

text \<open>The exceptions the modelled functions can raise.\<close>

datatype error = AssertionError | IndexError | ValueError

section \<open>check\_overlap\<close>

text \<open>
  The \<^verbatim>\<open>for track in gene_track_list\<close> loop of \<^verbatim>\<open>check_overlap\<close>, with its
  three loop variables \<^verbatim>\<open>prev_track\<close>, \<^verbatim>\<open>overlap\<close> and \<^verbatim>\<open>not_overlap\<close>
  passed explicitly. Both lists grow by \<^verbatim>\<open>append\<close>; \<^verbatim>\<open>prev_track\<close> is set to
  the current position in both branches.
\<close>

fun scan_tracks ::
  "int \<Rightarrow> int \<Rightarrow> 'a marker list \<Rightarrow> 'a marker list \<Rightarrow> 'a marker list
     \<Rightarrow> 'a marker list \<times> 'a marker list" where
  "scan_tracks minimum prev_track overlap not_overlap [] = (overlap, not_overlap)"
| "scan_tracks minimum prev_track overlap not_overlap (track # rest) =
     (if snd track - prev_track \<le> minimum
      then scan_tracks minimum (snd track) (overlap @ [(fst track, snd track)]) not_overlap rest
      else scan_tracks minimum (snd track) overlap (not_overlap @ [(fst track, snd track)]) rest)"

text \<open>
  \<^verbatim>\<open>check_overlap(gene_track_list, minimum=5000)\<close>: the assertion on the length,
  the sentinel \<^verbatim>\<open>prev_track = -100000\<close>, the scan, and the pair
  \<^verbatim>\<open>(overlap, not_overlap)\<close> that is returned.
\<close>

definition check_overlap ::
  "int \<Rightarrow> 'a marker list \<Rightarrow> error + ('a marker list \<times> 'a marker list)" where
  "check_overlap minimum gene_track_list =
     (if length gene_track_list > 1
      then Inr (scan_tracks minimum (- 100000) [] [] gene_track_list)
      else Inl AssertionError)"

section \<open>overlap\_recursive\<close>

text \<open>
  The statement \<^verbatim>\<open>while len(overlap) > 1: ... else: final_tracks.append(overlap)\<close>.
  The loop has no \<^verbatim>\<open>break\<close>, so the \<^verbatim>\<open>else\<close> suite runs whenever the condition
  turns false. The loop need not terminate (a pass may accept nothing and hand the same
  list on), so it is a partial function: \<open>None\<close> is a run that never returns,
  \<open>Some (Inl e)\<close> a raised exception, \<open>Some (Inr final_tracks)\<close> the value of
  \<^verbatim>\<open>final_tracks\<close> afterwards. Every call of \<^verbatim>\<open>check_overlap\<close> in
  \<^verbatim>\<open>overlap_recursive\<close> uses the default \<^verbatim>\<open>minimum=5000\<close>.
\<close>

partial_function (option) overlap_loop ::
  "'a marker list \<Rightarrow> 'a marker list list \<Rightarrow> (error + 'a marker list list) option" where
  "overlap_loop overlap final_tracks =
     (if length overlap > 1
      then (case check_overlap 5000 overlap of
              Inl e \<Rightarrow> Some (Inl e)
            | Inr (overlap', not_overlap) \<Rightarrow> overlap_loop overlap' (final_tracks @ [not_overlap]))
      else Some (Inr (final_tracks @ [overlap])))"

declare overlap_loop.simps [code]

definition overlap_recursive ::
  "'a marker list \<Rightarrow> (error + 'a marker list list) option" where
  "overlap_recursive gene_track_list =
     (if length gene_track_list > 1
      then (case check_overlap 5000 gene_track_list of
              Inl e \<Rightarrow> Some (Inl e)
            | Inr (overlap, not_overlap) \<Rightarrow>
                if overlap \<noteq> [] then overlap_loop overlap [not_overlap]
                else Some (Inr [not_overlap]))
      else Some (Inl AssertionError))"

subsection \<open>The same run with a budget of passes and a log\<close>

text \<open>
  To count passes and to speak about the list each pass was fed, the run is repeated
  with two additions that the source does not have: a budget (one unit per call of
  \<^verbatim>\<open>check_overlap\<close>; \<open>None\<close> when the budget does not suffice) and a log with one
  entry \<open>(fed, overflow, accepted)\<close> per call, in call order. Apart from these the text
  of the two functions is that of \<open>overlap_loop\<close> and \<open>overlap_recursive\<close>; the
  lemmas \<open>loop_passes_sound\<close> and \<open>loop_passes_complete\<close> below show that the
  logged run returns exactly what the plain one returns.
\<close>

type_synonym 'a pass = "'a marker list \<times> 'a marker list \<times> 'a marker list"

fun overlap_loop_passes ::
  "nat \<Rightarrow> 'a marker list \<Rightarrow> 'a marker list list \<Rightarrow> 'a pass list
     \<Rightarrow> ((error + 'a marker list list) \<times> 'a pass list) option" where
  "overlap_loop_passes 0 overlap final_tracks passes =
     (if length overlap > 1 then None
      else Some (Inr (final_tracks @ [overlap]), passes))"
| "overlap_loop_passes (Suc budget) overlap final_tracks passes =
     (if length overlap > 1
      then (case check_overlap 5000 overlap of
              Inl e \<Rightarrow> Some (Inl e, passes)
            | Inr (overlap', not_overlap) \<Rightarrow>
                overlap_loop_passes budget overlap' (final_tracks @ [not_overlap])
                  (passes @ [(overlap, overlap', not_overlap)]))
      else Some (Inr (final_tracks @ [overlap]), passes))"

definition overlap_recursive_passes ::
  "nat \<Rightarrow> 'a marker list \<Rightarrow> ((error + 'a marker list list) \<times> 'a pass list) option" where
  "overlap_recursive_passes budget gene_track_list =
     (if length gene_track_list > 1
      then (case budget of
              0 \<Rightarrow> None
            | Suc budget' \<Rightarrow>
               (case check_overlap 5000 gene_track_list of
                  Inl e \<Rightarrow> Some (Inl e, [])
                | Inr (overlap, not_overlap) \<Rightarrow>
                    if overlap \<noteq> []
                    then overlap_loop_passes budget' overlap [not_overlap]
                           [(gene_track_list, overlap, not_overlap)]
                    else Some (Inr [not_overlap], [(gene_track_list, overlap, not_overlap)])))
      else Some (Inl AssertionError, []))"

subsection \<open>Notions used to state the properties of one pass\<close>

text \<open>
  These three functions are not code of the repository; they are the vocabulary of the
  statements about \<open>check_overlap\<close>. \<open>clear_flags\<close> is the decision taken at each
  scanned marker (\<open>True\<close> for "clear"), \<open>pick v flags xs\<close> keeps the elements of
  \<open>xs\<close> at the positions where the flag is \<open>v\<close>, and \<open>interleave\<close> merges two
  lists back, taking the next element from the first list where the flag is \<open>True\<close>
  and from the second where it is \<open>False\<close>.
\<close>

fun clear_flags :: "int \<Rightarrow> int \<Rightarrow> 'a marker list \<Rightarrow> bool list" where
  "clear_flags minimum prev_track [] = []"
| "clear_flags minimum prev_track (track # rest) =
     (\<not> snd track - prev_track \<le> minimum) # clear_flags minimum (snd track) rest"

fun pick :: "bool \<Rightarrow> bool list \<Rightarrow> 'b list \<Rightarrow> 'b list" where
  "pick v (f # fs) (x # xs) = (if f = v then x # pick v fs xs else pick v fs xs)"
| "pick v _ _ = []"

fun interleave :: "bool list \<Rightarrow> 'b list \<Rightarrow> 'b list \<Rightarrow> 'b list" where
  "interleave (True # fs) (y # ys) zs = y # interleave fs ys zs"
| "interleave (False # fs) ys (z # zs) = z # interleave fs ys zs"
| "interleave _ _ _ = []"

text \<open>
  Markers are values, and the same pair may occur twice in an input. To follow each
  occurrence of the input into its lane, \<open>index_tagged\<close> pairs every name with the
  position of its occurrence in the list; positions in the genome are left as they are.
\<close>

definition index_tagged :: "'a marker list \<Rightarrow> (nat \<times> 'a) marker list" where
  "index_tagged xs = map (\<lambda>(i, track). ((i, fst track), snd track)) (enumerate 0 xs)"

section \<open>read\_track\_file\<close>

text \<open>
  The file is its content, a byte string; opening it is outside the model.
  \<^verbatim>\<open>for line in f\<close> yields the lines with their terminating newline (the last line
  may lack it).
\<close>

abbreviation TAB :: char where "TAB \<equiv> CHR 0x09"
abbreviation NL :: char where "NL \<equiv> CHR 0x0A"

fun file_lines :: "string \<Rightarrow> string list" where
  "file_lines [] = []"
| "file_lines (c # cs) =
     (if c = NL then [c] # file_lines cs
      else (case file_lines cs of
              line # lines \<Rightarrow> (c # line) # lines
            | [] \<Rightarrow> [[c]]))"

text \<open>
  \<^verbatim>\<open>line.strip()\<close> removes leading and trailing whitespace (space, tab, newline,
  vertical tab, form feed, carriage return); \<^verbatim>\<open>.split("\t")\<close> cuts at every tab and
  always returns at least one field.
\<close>

definition py_isspace :: "char \<Rightarrow> bool" where
  "py_isspace c \<longleftrightarrow> c \<in> {CHR 0x20, CHR 0x09, CHR 0x0A, CHR 0x0B, CHR 0x0C, CHR 0x0D}"

definition strip :: "string \<Rightarrow> string" where
  "strip s = rev (dropWhile py_isspace (rev (dropWhile py_isspace s)))"

fun split :: "char \<Rightarrow> string \<Rightarrow> string list" where
  "split sep [] = [[]]"
| "split sep (c # cs) =
     (if c = sep then [] # split sep cs
      else (case split sep cs of
              field # fields \<Rightarrow> (c # field) # fields
            | [] \<Rightarrow> [[c]]))"

text \<open>
  The first two statements of the loop body:
  \<^verbatim>\<open>data = line.strip().split("\t")\<close> and
  \<^verbatim>\<open>gene, track, track_pos = data[0], data[1], int(data[2])\<close>.
  The three subscripts are evaluated left to right and each raises
  \<^verbatim>\<open>IndexError\<close> when the field is missing; then \<^verbatim>\<open>int\<close> raises
  \<^verbatim>\<open>ValueError\<close> when it rejects the third field. Fields after the third are
  never looked at. The builtin \<^verbatim>\<open>int\<close> is the parameter \<open>to_int\<close> (\<open>None\<close> when it
  raises), so that the statements below do not depend on which strings a given
  interpreter accepts as integers.
\<close>

definition parse_record ::
  "(string \<Rightarrow> int option) \<Rightarrow> string \<Rightarrow> error + (string \<times> string \<times> int)" where
  "parse_record to_int line =
     (let data = split TAB (strip line) in
      if length data \<le> 0 then Inl IndexError
      else if length data \<le> 1 then Inl IndexError
      else if length data \<le> 2 then Inl IndexError
      else (case to_int (data ! 2) of
              None \<Rightarrow> Inl ValueError
            | Some track_pos \<Rightarrow> Inr (data ! 0, data ! 1, track_pos)))"

text \<open>
  The \<^verbatim>\<open>for line in f\<close> loop. The dictionary \<^verbatim>\<open>track_info\<close> is a map from gene
  names to marker lists; an exception leaves the loop at once.
\<close>

fun read_lines ::
  "(string \<Rightarrow> int option) \<Rightarrow> (string \<rightharpoonup> string marker list) \<Rightarrow> string list
     \<Rightarrow> error + (string \<rightharpoonup> string marker list)" where
  "read_lines to_int track_info [] = Inr track_info"
| "read_lines to_int track_info (line # rest) =
     (case parse_record to_int line of
        Inl e \<Rightarrow> Inl e
      | Inr (gene, track, track_pos) \<Rightarrow>
          (case track_info gene of
             Some tracks \<Rightarrow>
               read_lines to_int (track_info(gene \<mapsto> tracks @ [(track, track_pos)])) rest
           | None \<Rightarrow>
               read_lines to_int (track_info(gene \<mapsto> [(track, track_pos)])) rest))"

text \<open>
  \<^verbatim>\<open>read_track_file\<close>: after the loop every value of \<^verbatim>\<open>track_info\<close> is replaced
  by \<^verbatim>\<open>sorted(tracks, key=itemgetter(1))\<close>. Python's \<^verbatim>\<open>sorted\<close> is a stable
  ascending sort, and so is \<open>sort_key\<close> (insertion sort); a stable sort has one
  possible result, so the two agree.
\<close>

definition read_track_file ::
  "(string \<Rightarrow> int option) \<Rightarrow> string \<Rightarrow> error + (string \<rightharpoonup> string marker list)" where
  "read_track_file to_int content =
     (case read_lines to_int Map.empty (file_lines content) of
        Inl e \<Rightarrow> Inl e
      | Inr track_info \<Rightarrow> Inr (map_option (sort_key snd) \<circ> track_info))"

text \<open>
  The markers of one gene in the order in which their lines appear in the file: the
  reference point for "order of appearance in the source".
\<close>

definition tracks_in_order ::
  "(string \<Rightarrow> int option) \<Rightarrow> string list \<Rightarrow> string \<Rightarrow> string marker list" where
  "tracks_in_order to_int lines gene =
     concat (map (\<lambda>line. case parse_record to_int line of
                            Inl e \<Rightarrow> []
                          | Inr (g, track, track_pos) \<Rightarrow>
                              if g = gene then [(track, track_pos)] else []) lines)"

text \<open>
  A conversion to run concrete inputs with: \<^verbatim>\<open>int(s)\<close> on the strings every Python
  version reads the same way, that is optional surrounding whitespace, an optional sign
  and one or more ASCII digits. Anything else is rejected here.
\<close>

definition is_digit :: "char \<Rightarrow> bool" where
  "is_digit c \<longleftrightarrow> 48 \<le> (of_char c :: nat) \<and> (of_char c :: nat) \<le> 57"

definition decimal_value :: "string \<Rightarrow> nat" where
  "decimal_value ds = foldl (\<lambda>v c. 10 * v + (of_char c - 48)) 0 ds"

definition py_int :: "string \<Rightarrow> int option" where
  "py_int s =
     (case strip s of
        [] \<Rightarrow> None
      | c # cs \<Rightarrow>
          (let ds = (if c = CHR ''-'' \<or> c = CHR ''+'' then cs else c # cs) in
           if ds \<noteq> [] \<and> list_all is_digit ds
           then Some (if c = CHR ''-'' then - int (decimal_value ds) else int (decimal_value ds))
           else None))"

section \<open>Properties of one pass\<close>

lemma length_clear_flags [simp]: "length (clear_flags m p xs) = length xs"
  by (induction xs arbitrary: p) auto

lemma scan_tracks_flags:
  "scan_tracks m p ov nov xs =
     (ov @ pick False (clear_flags m p xs) xs, nov @ pick True (clear_flags m p xs) xs)"
  by (induction xs arbitrary: p ov nov) auto

lemma subseq_pick: "subseq (pick v fs xs) xs"
  by (induction v fs xs rule: pick.induct) auto

lemma set_pick: "set (pick v fs xs) \<subseteq> set xs"
  by (induction v fs xs rule: pick.induct) auto

lemma mset_pick:
  "length fs = length xs \<Longrightarrow> mset (pick False fs xs) + mset (pick True fs xs) = mset xs"
  by (induction fs xs rule: list_induct2) auto

lemma length_pick:
  "length fs = length xs \<Longrightarrow> length (pick False fs xs) + length (pick True fs xs) = length xs"
  by (induction fs xs rule: list_induct2) auto

lemma interleave_pick:
  "length fs = length xs \<Longrightarrow> interleave fs (pick True fs xs) (pick False fs xs) = xs"
  by (induction fs xs rule: list_induct2) auto

lemma pick_append:
  "length fs = length xs \<Longrightarrow> pick v (fs @ gs) (xs @ ys) = pick v fs xs @ pick v gs ys"
  by (induction fs xs rule: list_induct2) auto

lemma clear_flags_append:
  "clear_flags m p (xs @ t # ys) = clear_flags m p (xs @ [t]) @ clear_flags m (snd t) ys"
  by (induction xs arbitrary: p) auto

lemma in_set_pickD: "x \<in> set (pick v fs xs) \<Longrightarrow> x \<in> set xs"
  using set_pick by fastforce

lemma distinct_pick: "distinct xs \<Longrightarrow> distinct (pick v fs xs)"
  by (induction v fs xs rule: pick.induct) (auto dest: in_set_pickD)

lemma pick_disjoint:
  "distinct xs \<Longrightarrow> set (pick True fs xs) \<inter> set (pick False fs xs) = {}"
  by (induction fs xs rule: list_induct2') (auto dest: in_set_pickD)

section \<open>The logged run returns what the plain run returns\<close>

lemma check_overlap_Inr:
  "check_overlap m xs = Inr (ov, nov) \<longleftrightarrow>
     1 < length xs \<and> ov = pick False (clear_flags m (- 100000) xs) xs
       \<and> nov = pick True (clear_flags m (- 100000) xs) xs"
  by (auto simp: check_overlap_def scan_tracks_flags)

lemma check_overlap_Inl:
  "check_overlap m xs = Inl e \<longleftrightarrow> length xs \<le> 1 \<and> e = AssertionError"
  by (auto simp: check_overlap_def)

lemma loop_passes_sound:
  "overlap_loop_passes budget ov ft ps = Some (r, ps') \<Longrightarrow> overlap_loop ov ft = Some r"
proof (induction budget arbitrary: ov ft ps)
  case 0
  then show ?case by (subst overlap_loop.simps) (auto split: if_splits)
next
  case (Suc budget)
  show ?case
  proof (cases "1 < length ov")
    case False
    with Suc.prems show ?thesis by (subst overlap_loop.simps) auto
  next
    case True
    then obtain ov' nov where c: "check_overlap 5000 ov = Inr (ov', nov)"
      by (simp add: check_overlap_Inr)
    with True Suc.prems have
      "overlap_loop_passes budget ov' (ft @ [nov]) (ps @ [(ov, ov', nov)]) = Some (r, ps')"
      by simp
    then have "overlap_loop ov' (ft @ [nov]) = Some r" by (rule Suc.IH)
    with True c show ?thesis by (subst overlap_loop.simps) simp
  qed
qed

lemma recursive_passes_sound:
  "overlap_recursive_passes budget xs = Some (r, ps) \<Longrightarrow> overlap_recursive xs = Some r"
  unfolding overlap_recursive_passes_def overlap_recursive_def
  by (auto split: if_splits nat.splits sum.splits dest: loop_passes_sound)

lemma loop_passes_complete:
  assumes "overlap_loop ov ft = Some r"
  shows "\<forall>ps. \<exists>budget ps'. overlap_loop_passes budget ov ft ps = Some (r, ps')"
proof (rule overlap_loop.raw_induct
    [where P = "\<lambda>ov ft r. \<forall>ps. \<exists>budget ps'. overlap_loop_passes budget ov ft ps = Some (r, ps')",
     OF _ assms])
  fix loop :: "'a marker list \<Rightarrow> 'a marker list list \<Rightarrow> (error + 'a marker list list) option"
  fix ov ft r
  assume IH: "\<And>ov ft r. loop ov ft = Some r \<Longrightarrow>
      \<forall>ps. \<exists>budget ps'. overlap_loop_passes budget ov ft ps = Some (r, ps')"
  assume body: "(if 1 < length ov
      then case check_overlap 5000 ov of Inl e \<Rightarrow> Some (Inl e)
           | Inr (overlap', not_overlap) \<Rightarrow> loop overlap' (ft @ [not_overlap])
      else Some (Inr (ft @ [ov]))) = Some r"
  show "\<forall>ps. \<exists>budget ps'. overlap_loop_passes budget ov ft ps = Some (r, ps')"
  proof
    fix ps
    show "\<exists>budget ps'. overlap_loop_passes budget ov ft ps = Some (r, ps')"
    proof (cases "1 < length ov")
      case False
      with body have "overlap_loop_passes 0 ov ft ps = Some (r, ps)" by auto
      then show ?thesis by blast
    next
      case True
      then obtain ov' nov where c: "check_overlap 5000 ov = Inr (ov', nov)"
        by (simp add: check_overlap_Inr)
      with True body have "loop ov' (ft @ [nov]) = Some r" by simp
      from IH[OF this] obtain b ps' where
        "overlap_loop_passes b ov' (ft @ [nov]) (ps @ [(ov, ov', nov)]) = Some (r, ps')" by blast
      with True c have "overlap_loop_passes (Suc b) ov ft ps = Some (r, ps')" by simp
      then show ?thesis by blast
    qed
  qed
qed

section \<open>Properties of the loop\<close>

lemma length_pick_le: "length (pick v fs xs) \<le> length xs"
  by (induction v fs xs rule: pick.induct) auto

lemma check_overlap_subset:
  "check_overlap m ys = Inr (ov, nov) \<Longrightarrow> set ov \<subseteq> set ys \<and> set nov \<subseteq> set ys"
  by (auto simp: check_overlap_Inr dest: in_set_pickD)

lemma check_overlap_mset:
  "check_overlap m ys = Inr (ov, nov) \<Longrightarrow> mset ov + mset nov = mset ys"
  by (simp add: check_overlap_Inr mset_pick)

lemma check_overlap_length:
  "check_overlap m ys = Inr (ov, nov) \<Longrightarrow> length ov + length nov = length ys"
  by (simp add: check_overlap_Inr length_pick)

lemma check_overlap_first_clear:
  assumes "check_overlap m ys = Inr (ov, nov)" and "m < snd (hd ys) + 100000"
  shows "length ov < length ys \<and> nov \<noteq> [] \<and> hd nov = hd ys"
proof -
  from assms(1) obtain t ts where ys: "ys = t # ts"
    by (cases ys) (auto simp: check_overlap_Inr)
  from assms(2) ys have f: "clear_flags m (- 100000) ys = True # clear_flags m (snd t) ts"
    by simp
  from assms(1) have "nov = t # pick True (clear_flags m (snd t) ts) ts"
    and "ov = pick False (clear_flags m (snd t) ts) ts"
    unfolding check_overlap_Inr f by (simp_all add: ys)
  then show ?thesis using length_pick_le[of False "clear_flags m (snd t) ts" ts]
    by (simp add: ys less_Suc_eq_le)
qed

lemma loop_passes_no_error:
  "overlap_loop_passes budget ov ft ps = Some (r, ps') \<Longrightarrow> \<exists>lanes. r = Inr lanes"
proof (induction budget arbitrary: ov ft ps)
  case 0
  then show ?case by (auto split: if_splits)
next
  case (Suc budget)
  then show ?case
    by (auto split: if_splits sum.splits simp: check_overlap_Inl)
qed

lemma loop_passes_mset:
  "overlap_loop_passes budget ov ft ps = Some (Inr lanes, ps') \<Longrightarrow>
     mset (concat lanes) = mset (concat ft) + mset ov"
proof (induction budget arbitrary: ov ft ps)
  case 0
  then show ?case by (auto split: if_splits)
next
  case (Suc budget)
  show ?case
  proof (cases "1 < length ov")
    case False
    with Suc.prems show ?thesis by auto
  next
    case True
    then obtain ov' nov where c: "check_overlap 5000 ov = Inr (ov', nov)"
      by (simp add: check_overlap_Inr)
    with True Suc.prems have
      "overlap_loop_passes budget ov' (ft @ [nov]) (ps @ [(ov, ov', nov)]) = Some (Inr lanes, ps')"
      by simp
    from Suc.IH[OF this] check_overlap_mset[OF c] show ?thesis
      by (simp add: ac_simps)
  qed
qed

lemma loop_passes_terminates:
  "\<forall>t \<in> set ov. 0 \<le> snd t \<Longrightarrow> length ov \<le> Suc budget \<Longrightarrow>
     \<exists>lanes ps'. overlap_loop_passes budget ov ft ps = Some (Inr lanes, ps')"
proof (induction budget arbitrary: ov ft ps)
  case 0
  then show ?case by auto
next
  case (Suc budget)
  show ?case
  proof (cases "1 < length ov")
    case False
    then show ?thesis by auto
  next
    case True
    then obtain ov' nov where c: "check_overlap 5000 ov = Inr (ov', nov)"
      by (simp add: check_overlap_Inr)
    from True have "ov \<noteq> []" by auto
    then have "hd ov \<in> set ov" by simp
    with Suc.prems(1) have "0 \<le> snd (hd ov)" by blast
    then have "5000 < snd (hd ov) + 100000" by simp
    from check_overlap_first_clear[OF c this] Suc.prems(2) have len: "length ov' \<le> Suc budget"
      by simp
    from check_overlap_subset[OF c] Suc.prems(1) have "\<forall>t \<in> set ov'. 0 \<le> snd t" by blast
    from Suc.IH[OF this len] True c show ?thesis by simp
  qed
qed

lemma loop_passes_shape:
  "overlap_loop_passes budget ov ft ps = Some (Inr lanes, ps') \<Longrightarrow>
     \<exists>new. ps' = ps @ new \<and> length new \<le> budget
       \<and> lanes = ft @ map (snd \<circ> snd) new @ [last (ov # map (fst \<circ> snd) new)]
       \<and> length (last (ov # map (fst \<circ> snd) new)) \<le> 1
       \<and> map fst new = butlast (ov # map (fst \<circ> snd) new)
       \<and> (\<forall>p \<in> set new. check_overlap 5000 (fst p) = Inr (snd p) \<and> set (fst p) \<subseteq> set ov)"
proof (induction budget arbitrary: ov ft ps)
  case 0
  then show ?case by (auto split: if_splits)
next
  case (Suc budget)
  show ?case
  proof (cases "1 < length ov")
    case False
    with Suc.prems show ?thesis by auto
  next
    case True
    then obtain ov' nov where c: "check_overlap 5000 ov = Inr (ov', nov)"
      by (simp add: check_overlap_Inr)
    with True Suc.prems have
      "overlap_loop_passes budget ov' (ft @ [nov]) (ps @ [(ov, ov', nov)]) = Some (Inr lanes, ps')"
      by simp
    from Suc.IH[OF this] obtain new where new:
      "ps' = (ps @ [(ov, ov', nov)]) @ new" "length new \<le> budget"
      "lanes = (ft @ [nov]) @ map (snd \<circ> snd) new @ [last (ov' # map (fst \<circ> snd) new)]"
      "length (last (ov' # map (fst \<circ> snd) new)) \<le> 1"
      "map fst new = butlast (ov' # map (fst \<circ> snd) new)"
      "\<forall>p \<in> set new. check_overlap 5000 (fst p) = Inr (snd p) \<and> set (fst p) \<subseteq> set ov'"
      by blast
    have "set ov' \<subseteq> set ov" using check_overlap_subset[OF c] by simp
    with new(6) c have six: "\<forall>p \<in> set ((ov, ov', nov) # new).
        check_overlap 5000 (fst p) = Inr (snd p) \<and> set (fst p) \<subseteq> set ov"
      by auto
    show ?thesis
    proof (intro exI[of _ "(ov, ov', nov) # new"] conjI)
      show "ps' = ps @ (ov, ov', nov) # new" using new(1) by simp
      show "length ((ov, ov', nov) # new) \<le> Suc budget" using new(2) by simp
      show "lanes = ft @ map (snd \<circ> snd) ((ov, ov', nov) # new)
              @ [last (ov # map (fst \<circ> snd) ((ov, ov', nov) # new))]"
        using new(3) by simp
      show "length (last (ov # map (fst \<circ> snd) ((ov, ov', nov) # new))) \<le> 1"
        using new(4) by simp
      show "map fst ((ov, ov', nov) # new)
              = butlast (ov # map (fst \<circ> snd) ((ov, ov', nov) # new))"
        using new(5) by simp
      show "\<forall>p \<in> set ((ov, ov', nov) # new).
        check_overlap 5000 (fst p) = Inr (snd p) \<and> set (fst p) \<subseteq> set ov"
        by (rule six)
    qed
  qed
qed

lemma pick_adjacent_split:
  "\<exists>P Q fa. pick v (clear_flags m p (us @ a # b # vs)) (us @ a # b # vs)
       = P @ (if fa = v then [a] else []) @ (if (\<not> snd b - snd a \<le> m) = v then [b] else []) @ Q
     \<and> set P \<subseteq> set us \<and> set Q \<subseteq> set vs"
proof (induction us arbitrary: p)
  case Nil
  have "pick v (clear_flags m p (a # b # vs)) (a # b # vs)
      = [] @ (if (\<not> snd a - p \<le> m) = v then [a] else [])
           @ (if (\<not> snd b - snd a \<le> m) = v then [b] else [])
           @ pick v (clear_flags m (snd b) vs) vs"
    by simp
  moreover have "set (pick v (clear_flags m (snd b) vs) vs) \<subseteq> set vs"
    by (rule set_pick)
  ultimately show ?case by (metis append_Nil empty_set empty_subsetI)
next
  case (Cons u us)
  from Cons.IH[of "snd u"] obtain P Q fa where
    eq: "pick v (clear_flags m (snd u) (us @ a # b # vs)) (us @ a # b # vs)
       = P @ (if fa = v then [a] else []) @ (if (\<not> snd b - snd a \<le> m) = v then [b] else []) @ Q"
    and sub: "set P \<subseteq> set us" "set Q \<subseteq> set vs"
    by blast
  let ?P = "(if (\<not> snd u - p \<le> m) = v then [u] else []) @ P"
  have "pick v (clear_flags m p ((u # us) @ a # b # vs)) ((u # us) @ a # b # vs)
      = ?P @ (if fa = v then [a] else []) @ (if (\<not> snd b - snd a \<le> m) = v then [b] else []) @ Q"
    using eq by simp
  moreover have "set ?P \<subseteq> set (u # us)" using sub(1) by auto
  ultimately show ?case using sub(2) by blast
qed

lemma check_overlap_adjacent:
  assumes c: "check_overlap m (us @ a # b # vs) = Inr (ov, nov)"
    and d: "distinct (us @ a # b # vs)"
  shows "(b \<in> set nov \<longleftrightarrow> m < snd b - snd a)"
    and "(b \<in> set ov \<longleftrightarrow> snd b - snd a \<le> m)"
    and "a \<in> set ov \<Longrightarrow> b \<in> set ov \<Longrightarrow> \<exists>us' vs'. ov = us' @ a # b # vs'"
proof -
  let ?ys = "us @ a # b # vs"
  from d have nb: "b \<notin> set us" "b \<notin> set vs" "a \<noteq> b" "a \<notin> set us" "a \<notin> set vs" by auto
  from c have nov: "nov = pick True (clear_flags m (- 100000) ?ys) ?ys"
    and ov: "ov = pick False (clear_flags m (- 100000) ?ys) ?ys"
    by (simp_all add: check_overlap_Inr)
  from pick_adjacent_split[of True m "- 100000" us a b vs] obtain P Q fa where
    T: "nov = P @ (if fa = True then [a] else []) @ (if (\<not> snd b - snd a \<le> m) = True then [b] else []) @ Q"
    "set P \<subseteq> set us" "set Q \<subseteq> set vs"
    unfolding nov by blast
  from pick_adjacent_split[of False m "- 100000" us a b vs] obtain P' Q' fa' where
    F: "ov = P' @ (if fa' = False then [a] else []) @ (if (\<not> snd b - snd a \<le> m) = False then [b] else []) @ Q'"
    "set P' \<subseteq> set us" "set Q' \<subseteq> set vs"
    unfolding ov by blast
  show "(b \<in> set nov \<longleftrightarrow> m < snd b - snd a)"
    using T nb by (auto split: if_splits)
  show "(b \<in> set ov \<longleftrightarrow> snd b - snd a \<le> m)"
    using F nb by (auto split: if_splits)
  show "\<exists>us' vs'. ov = us' @ a # b # vs'" if "a \<in> set ov" "b \<in> set ov"
  proof -
    from that(1) F nb have fa: "fa' = False" by (auto split: if_splits)
    from that(2) F nb have fb: "snd b - snd a \<le> m" by (auto split: if_splits)
    from F(1) fa fb have "ov = P' @ a # b # Q'" by simp
    then show ?thesis by blast
  qed
qed

lemma check_overlap_distinct:
  "check_overlap m ys = Inr (ov, nov) \<Longrightarrow> distinct ys \<Longrightarrow> distinct ov \<and> distinct nov"
  by (simp add: check_overlap_Inr distinct_pick)

lemma loop_passes_separate:
  assumes "overlap_loop_passes budget ov ft ps = Some (Inr lanes, ps')"
    and "distinct ov" and "a \<noteq> b"
    and "a \<in> set ov \<Longrightarrow> b \<in> set ov \<Longrightarrow>
           (\<exists>us vs. ov = us @ a # b # vs) \<and> snd b - snd a \<le> 5000"
  shows "\<exists>new. lanes = ft @ new \<and> (\<forall>lane \<in> set new. \<not> (a \<in> set lane \<and> b \<in> set lane))"
  using assms
proof (induction budget arbitrary: ov ft ps)
  case 0
  from "0.prems"(1) have len: "length ov \<le> 1" and l: "lanes = ft @ [ov]"
    by (auto split: if_splits)
  from len \<open>a \<noteq> b\<close> have "\<not> (a \<in> set ov \<and> b \<in> set ov)"
    by (cases ov) auto
  with l show ?case by simp
next
  case (Suc budget)
  show ?case
  proof (cases "1 < length ov")
    case False
    with Suc.prems(1) have len: "length ov \<le> 1" and l: "lanes = ft @ [ov]"
      by auto
    from len \<open>a \<noteq> b\<close> have "\<not> (a \<in> set ov \<and> b \<in> set ov)"
      by (cases ov) auto
    with l show ?thesis by simp
  next
    case True
    then obtain ov' nov where c: "check_overlap 5000 ov = Inr (ov', nov)"
      by (simp add: check_overlap_Inr)
    with True Suc.prems(1) have run:
      "overlap_loop_passes budget ov' (ft @ [nov]) (ps @ [(ov, ov', nov)]) = Some (Inr lanes, ps')"
      by simp
    have sub: "set ov' \<subseteq> set ov" "set nov \<subseteq> set ov"
      using check_overlap_subset[OF c] by simp_all
    have d': "distinct ov'" using check_overlap_distinct[OF c Suc.prems(2)] by simp
    have adj': "(\<exists>us vs. ov' = us @ a # b # vs) \<and> snd b - snd a \<le> 5000"
      if "a \<in> set ov'" "b \<in> set ov'"
    proof -
      from that sub have "a \<in> set ov" "b \<in> set ov" by auto
      from Suc.prems(4)[OF this] obtain us vs where
        ov: "ov = us @ a # b # vs" and gap: "snd b - snd a \<le> 5000" by blast
      from check_overlap_adjacent(3)[OF c[unfolded ov] Suc.prems(2)[unfolded ov] that]
      show ?thesis using gap by simp
    qed
    have nov_sep: "\<not> (a \<in> set nov \<and> b \<in> set nov)"
    proof
      assume ab: "a \<in> set nov \<and> b \<in> set nov"
      with sub have "a \<in> set ov" "b \<in> set ov" by auto
      from Suc.prems(4)[OF this] obtain us vs where
        ov: "ov = us @ a # b # vs" and gap: "snd b - snd a \<le> 5000" by blast
      from check_overlap_adjacent(1)[OF c[unfolded ov] Suc.prems(2)[unfolded ov]] ab
      have "5000 < snd b - snd a" by simp
      with gap show False by simp
    qed
    from Suc.IH[OF run d' \<open>a \<noteq> b\<close> adj'] obtain new where
      "lanes = (ft @ [nov]) @ new" "\<forall>lane \<in> set new. \<not> (a \<in> set lane \<and> b \<in> set lane)"
      by blast
    with nov_sep show ?thesis
      by (intro exI[of _ "nov # new"]) simp
  qed
qed

lemma overlap_recursive_cases:
  assumes "overlap_recursive xs = Some (Inr lanes)"
  shows "\<exists>ov nov. check_overlap 5000 xs = Inr (ov, nov) \<and>
           (if ov = [] then lanes = [nov]
            else \<exists>budget ps'. overlap_loop_passes budget ov [nov] [] = Some (Inr lanes, ps'))"
proof -
  from assms have len: "1 < length xs"
    by (auto simp: overlap_recursive_def split: if_splits)
  then obtain ov nov where c: "check_overlap 5000 xs = Inr (ov, nov)"
    by (simp add: check_overlap_Inr)
  show ?thesis
  proof (cases "ov = []")
    case True
    with assms len c show ?thesis by (simp add: overlap_recursive_def)
  next
    case False
    with assms len c have "overlap_loop ov [nov] = Some (Inr lanes)"
      by (simp add: overlap_recursive_def)
    from loop_passes_complete[OF this] False c show ?thesis by auto
  qed
qed

lemma recursive_passes_shape:
  assumes "overlap_recursive_passes budget xs = Some (Inr lanes, passes)"
  shows "length passes \<le> budget \<and> passes \<noteq> []
       \<and> map fst passes = butlast (xs # map (fst \<circ> snd) passes)
       \<and> (\<forall>p \<in> set passes. check_overlap 5000 (fst p) = Inr (snd p) \<and> set (fst p) \<subseteq> set xs)
       \<and> (lanes = map (snd \<circ> snd) passes
            \<or> lanes = map (snd \<circ> snd) passes @ [last (map (fst \<circ> snd) passes)])
       \<and> length (last (map (fst \<circ> snd) passes)) \<le> 1"
proof -
  from assms have len: "1 < length xs"
    by (auto simp: overlap_recursive_passes_def split: if_splits)
  then obtain ov nov where c: "check_overlap 5000 xs = Inr (ov, nov)"
    by (simp add: check_overlap_Inr)
  from assms len obtain b where b: "budget = Suc b"
    by (cases budget) (auto simp: overlap_recursive_passes_def)
  show ?thesis
  proof (cases "ov = []")
    case True
    with assms len c b have "lanes = [nov]" "passes = [(xs, [], nov)]"
      by (simp_all add: overlap_recursive_passes_def)
    with c True b show ?thesis by simp
  next
    case False
    with assms len c b have
      "overlap_loop_passes b ov [nov] [(xs, ov, nov)] = Some (Inr lanes, passes)"
      by (simp add: overlap_recursive_passes_def)
    from loop_passes_shape[OF this] obtain new where new:
      "passes = [(xs, ov, nov)] @ new" "length new \<le> b"
      "lanes = [nov] @ map (snd \<circ> snd) new @ [last (ov # map (fst \<circ> snd) new)]"
      "length (last (ov # map (fst \<circ> snd) new)) \<le> 1"
      "map fst new = butlast (ov # map (fst \<circ> snd) new)"
      "\<forall>p \<in> set new. check_overlap 5000 (fst p) = Inr (snd p) \<and> set (fst p) \<subseteq> set ov"
      by blast
    have sub: "set ov \<subseteq> set xs" using check_overlap_subset[OF c] by simp
    have 1: "length passes \<le> budget" using new(1,2) b by simp
    have 2: "passes \<noteq> []" using new(1) by simp
    have 3: "map fst passes = butlast (xs # map (fst \<circ> snd) passes)"
      using new(1,5) by simp
    have 4: "\<forall>p \<in> set passes. check_overlap 5000 (fst p) = Inr (snd p) \<and> set (fst p) \<subseteq> set xs"
      using new(1,6) c sub by auto
    have 5: "lanes = map (snd \<circ> snd) passes @ [last (map (fst \<circ> snd) passes)]"
      using new(1,3) by simp
    have 6: "length (last (map (fst \<circ> snd) passes)) \<le> 1"
      using new(1,4) by simp
    from 1 2 3 4 5 6 show ?thesis by blast
  qed
qed

lemma recursive_passes_terminates:
  assumes "2 \<le> length xs" and "\<forall>t \<in> set xs. 0 \<le> snd t"
  shows "\<exists>lanes passes. overlap_recursive_passes (length xs - 1) xs = Some (Inr lanes, passes)"
proof -
  define b where "b = length xs - 2"
  from assms(1) have b: "length xs - 1 = Suc b" "length xs = Suc (Suc b)"
    by (simp_all add: b_def)
  from assms(1) obtain ov nov where c: "check_overlap 5000 xs = Inr (ov, nov)"
    by (simp add: check_overlap_Inr)
  from assms(1) have "xs \<noteq> []" by auto
  then have "hd xs \<in> set xs" by simp
  with assms(2) have "0 \<le> snd (hd xs)" by blast
  then have "5000 < snd (hd xs) + 100000" by simp
  from check_overlap_first_clear[OF c this] b have len: "length ov \<le> Suc b" by simp
  from check_overlap_subset[OF c] assms(2) have nn: "\<forall>t \<in> set ov. 0 \<le> snd t" by blast
  show ?thesis
  proof (cases "ov = []")
    case True
    with assms(1) c b show ?thesis by (simp add: overlap_recursive_passes_def)
  next
    case False
    from loop_passes_terminates[OF nn len, of "[nov]" "[(xs, ov, nov)]"]
    show ?thesis using False assms(1) c b by (simp add: overlap_recursive_passes_def)
  qed
qed

section \<open>Renaming markers commutes with the partitioner\<close>

text \<open>
  The partitioner never looks at a name. Applying any function \<open>f\<close> to the names of
  the input gives the lanes of the original input with \<open>f\<close> applied to their names,
  and a run that does not return stays one that does not return.
\<close>

lemma clear_flags_relabel: "clear_flags m p (map (apfst f) xs) = clear_flags m p xs"
  by (induction xs arbitrary: p) auto

lemma pick_map: "pick v fs (map g xs) = map g (pick v fs xs)"
  by (induction v fs xs rule: pick.induct) auto

lemma scan_tracks_relabel:
  "scan_tracks m p (map (apfst f) ov) (map (apfst f) nov) (map (apfst f) xs)
     = map_prod (map (apfst f)) (map (apfst f)) (scan_tracks m p ov nov xs)"
  by (simp add: scan_tracks_flags clear_flags_relabel pick_map)

lemma check_overlap_relabel:
  "check_overlap m (map (apfst f) xs)
     = map_sum id (map_prod (map (apfst f)) (map (apfst f))) (check_overlap m xs)"
  using scan_tracks_relabel[of m "- 100000" f "[]" "[]" xs]
  by (simp add: check_overlap_def)

lemma loop_passes_relabel:
  "overlap_loop_passes budget (map (apfst f) ov) (map (map (apfst f)) ft)
       (map (map_prod (map (apfst f)) (map_prod (map (apfst f)) (map (apfst f)))) ps)
     = map_option (map_prod (map_sum id (map (map (apfst f))))
         (map (map_prod (map (apfst f)) (map_prod (map (apfst f)) (map (apfst f))))))
         (overlap_loop_passes budget ov ft ps)"
proof (induction budget arbitrary: ov ft ps)
  case 0
  then show ?case by simp
next
  case (Suc budget)
  show ?case
  proof (cases "1 < length ov")
    case False
    then show ?thesis by simp
  next
    case True
    then obtain ov' nov where c: "check_overlap 5000 ov = Inr (ov', nov)"
      by (simp add: check_overlap_Inr)
    then have c': "check_overlap 5000 (map (apfst f) ov)
        = Inr (map (apfst f) ov', map (apfst f) nov)"
      by (simp add: check_overlap_relabel)
    from Suc.IH[of ov' "ft @ [nov]" "ps @ [(ov, ov', nov)]"] True c c'
    show ?thesis by simp
  qed
qed

lemma overlap_loop_relabel:
  "overlap_loop (map (apfst f) ov) (map (map (apfst f)) ft)
     = map_option (map_sum id (map (map (apfst f)))) (overlap_loop ov ft)"
proof (cases "overlap_loop ov ft")
  case (Some r)
  from loop_passes_complete[OF Some] obtain budget ps' where
    "overlap_loop_passes budget ov ft [] = Some (r, ps')" by blast
  with loop_passes_relabel[of budget f ov ft "[]"] have
    "\<exists>ps''. overlap_loop_passes budget (map (apfst f) ov) (map (map (apfst f)) ft) []
       = Some (map_sum id (map (map (apfst f))) r, ps'')" by simp
  then obtain ps'' where
    "overlap_loop_passes budget (map (apfst f) ov) (map (map (apfst f)) ft) []
       = Some (map_sum id (map (map (apfst f))) r, ps'')" by blast
  from loop_passes_sound[OF this] Some show ?thesis by simp
next
  case None
  have "overlap_loop (map (apfst f) ov) (map (map (apfst f)) ft) = None"
  proof (rule ccontr)
    assume "overlap_loop (map (apfst f) ov) (map (map (apfst f)) ft) \<noteq> None"
    then obtain r' where "overlap_loop (map (apfst f) ov) (map (map (apfst f)) ft) = Some r'"
      by blast
    from loop_passes_complete[OF this] obtain budget ps' where
      "overlap_loop_passes budget (map (apfst f) ov) (map (map (apfst f)) ft) [] = Some (r', ps')"
      by blast
    with loop_passes_relabel[of budget f ov ft "[]"] obtain r ps where
      "overlap_loop_passes budget ov ft [] = Some (r, ps)"
      by (cases "overlap_loop_passes budget ov ft []") auto
    from loop_passes_sound[OF this] None show False by simp
  qed
  with None show ?thesis by simp
qed

lemma overlap_recursive_relabel:
  "overlap_recursive (map (apfst f) xs)
     = map_option (map_sum id (map (map (apfst f)))) (overlap_recursive xs)"
proof (cases "1 < length xs")
  case False
  then show ?thesis by (simp add: overlap_recursive_def)
next
  case True
  then obtain ov nov where c: "check_overlap 5000 xs = Inr (ov, nov)"
    by (simp add: check_overlap_Inr)
  then have c': "check_overlap 5000 (map (apfst f) xs)
      = Inr (map (apfst f) ov, map (apfst f) nov)"
    by (simp add: check_overlap_relabel)
  from overlap_loop_relabel[of f ov "[nov]"] True c c' show ?thesis
    by (simp add: overlap_recursive_def)
qed

lemma index_tagged_untag: "map (apfst snd) (index_tagged xs) = xs"
proof -
  have "map (apfst snd \<circ> (\<lambda>(i, track). ((i, fst track), snd track))) (enumerate 0 xs)
      = map snd (enumerate 0 xs)"
    by (rule map_cong) auto
  then show ?thesis by (simp add: index_tagged_def)
qed

lemma index_tagged_distinct: "distinct (index_tagged xs)"
proof -
  have "map (fst \<circ> fst) (index_tagged xs) = map fst (enumerate 0 xs)"
    unfolding index_tagged_def by (simp add: comp_def case_prod_beta)
  then have "distinct (map (fst \<circ> fst) (index_tagged xs))" by simp
  then show ?thesis by (rule distinct_map[THEN iffD1, THEN conjunct1])
qed

lemma index_tagged_run:
  "overlap_recursive xs
     = map_option (map_sum id (map (map (apfst snd)))) (overlap_recursive (index_tagged xs))"
  using overlap_recursive_relabel[of snd "index_tagged xs"]
  by (simp add: index_tagged_untag)

section \<open>A run that does not return\<close>

text \<open>
  With positions at or below \<open>-95000\<close> the sentinel no longer protects the first
  marker: here both markers overflow in every pass, the loop is handed its own input
  again, and \<^verbatim>\<open>overlap_recursive\<close> never returns.
\<close>

lemma loop_passes_stuck:
  "overlap_loop_passes budget [(''A'', - 100000), (''B'', - 100000)] ft ps = None"
  by (induction budget arbitrary: ft ps) (simp_all add: check_overlap_def)

lemma overlap_recursive_diverges:
  "overlap_recursive [(''A'', - 100000), (''B'', - 100000)] = None"
proof -
  have "overlap_loop [(''A'', - 100000), (''B'', - 100000)] [[]] = None"
  proof (rule ccontr)
    assume "overlap_loop [(''A'', - 100000), (''B'', - 100000)] [[]] \<noteq> None"
    then obtain r where "overlap_loop [(''A'', - 100000), (''B'', - 100000)] [[]] = Some r"
      by blast
    from loop_passes_complete[OF this] loop_passes_stuck show False by simp
  qed
  then show ?thesis by (simp add: overlap_recursive_def check_overlap_def)
qed

section \<open>Properties of the loader's loop\<close>

lemma tracks_in_order_Nil [simp]: "tracks_in_order to_int [] gene = []"
  by (simp add: tracks_in_order_def)

lemma tracks_in_order_Cons:
  "tracks_in_order to_int (line # rest) gene =
     (case parse_record to_int line of
        Inl e \<Rightarrow> []
      | Inr (g, track, track_pos) \<Rightarrow> if g = gene then [(track, track_pos)] else [])
     @ tracks_in_order to_int rest gene"
  by (simp add: tracks_in_order_def)

lemma read_lines_lookup:
  "read_lines to_int track_info lines = Inr track_info' \<Longrightarrow>
     track_info' gene =
       (case track_info gene of
          None \<Rightarrow> (if tracks_in_order to_int lines gene = [] then None
                    else Some (tracks_in_order to_int lines gene))
        | Some tracks \<Rightarrow> Some (tracks @ tracks_in_order to_int lines gene))"
proof (induction lines arbitrary: track_info)
  case Nil
  then show ?case by (auto split: option.splits)
next
  case (Cons line rest)
  from Cons.prems obtain g track track_pos where
    p: "parse_record to_int line = Inr (g, track, track_pos)"
    by (auto split: sum.splits)
  show ?case
  proof (cases "track_info g")
    case None
    with Cons.prems p have
      "read_lines to_int (track_info(g \<mapsto> [(track, track_pos)])) rest = Inr track_info'"
      by simp
    from Cons.IH[OF this] None p show ?thesis
      by (auto simp: tracks_in_order_Cons split: option.splits)
  next
    case (Some tracks)
    with Cons.prems p have
      "read_lines to_int (track_info(g \<mapsto> tracks @ [(track, track_pos)])) rest = Inr track_info'"
      by simp
    from Cons.IH[OF this] Some p show ?thesis
      by (auto simp: tracks_in_order_Cons split: option.splits)
  qed
qed

lemma read_lines_error:
  "read_lines to_int track_info lines = Inl e \<longleftrightarrow>
     (\<exists>good bad rest. lines = good @ bad # rest
        \<and> (\<forall>line \<in> set good. \<exists>r. parse_record to_int line = Inr r)
        \<and> parse_record to_int bad = Inl e)"
proof (induction lines arbitrary: track_info)
  case Nil
  then show ?case by simp
next
  case (Cons line rest)
  show ?case
  proof (cases "parse_record to_int line")
    case (Inl e')
    have "(\<exists>good bad rest'. line # rest = good @ bad # rest'
        \<and> (\<forall>l \<in> set good. \<exists>r. parse_record to_int l = Inr r)
        \<and> parse_record to_int bad = Inl e) \<longleftrightarrow> e' = e"
    proof
      assume "\<exists>good bad rest'. line # rest = good @ bad # rest'
        \<and> (\<forall>l \<in> set good. \<exists>r. parse_record to_int l = Inr r)
        \<and> parse_record to_int bad = Inl e"
      then obtain good bad rest' where d: "line # rest = good @ bad # rest'"
        and g: "\<forall>l \<in> set good. \<exists>r. parse_record to_int l = Inr r"
        and b: "parse_record to_int bad = Inl e" by blast
      show "e' = e"
      proof (cases good)
        case Nil
        with d b Inl show ?thesis by simp
      next
        case (Cons l ls)
        with d g Inl show ?thesis by auto
      qed
    next
      assume "e' = e"
      with Inl have "line # rest = [] @ line # rest
        \<and> (\<forall>l \<in> set []. \<exists>r. parse_record to_int l = Inr r)
        \<and> parse_record to_int line = Inl e" by simp
      then show "\<exists>good bad rest'. line # rest = good @ bad # rest'
        \<and> (\<forall>l \<in> set good. \<exists>r. parse_record to_int l = Inr r)
        \<and> parse_record to_int bad = Inl e" by blast
    qed
    with Inl show ?thesis by auto
  next
    case (Inr r)
    obtain g track track_pos where r: "r = (g, track, track_pos)" by (cases r) auto
    have step: "\<exists>ti'. read_lines to_int track_info (line # rest) = read_lines to_int ti' rest"
      using Inr r by (cases "track_info g") auto
    then obtain ti' where ti': "read_lines to_int track_info (line # rest) = read_lines to_int ti' rest"
      by blast
    have "(\<exists>good bad rest'. line # rest = good @ bad # rest'
        \<and> (\<forall>l \<in> set good. \<exists>r. parse_record to_int l = Inr r)
        \<and> parse_record to_int bad = Inl e) \<longleftrightarrow>
      (\<exists>good bad rest'. rest = good @ bad # rest'
        \<and> (\<forall>l \<in> set good. \<exists>r. parse_record to_int l = Inr r)
        \<and> parse_record to_int bad = Inl e)"
    proof
      assume "\<exists>good bad rest'. line # rest = good @ bad # rest'
        \<and> (\<forall>l \<in> set good. \<exists>r. parse_record to_int l = Inr r)
        \<and> parse_record to_int bad = Inl e"
      then obtain good bad rest' where d: "line # rest = good @ bad # rest'"
        and g: "\<forall>l \<in> set good. \<exists>r. parse_record to_int l = Inr r"
        and b: "parse_record to_int bad = Inl e" by blast
      show "\<exists>good bad rest'. rest = good @ bad # rest'
        \<and> (\<forall>l \<in> set good. \<exists>r. parse_record to_int l = Inr r)
        \<and> parse_record to_int bad = Inl e"
      proof (cases good)
        case Nil
        with d b Inr show ?thesis by simp
      next
        case (Cons l ls)
        with d have "rest = ls @ bad # rest'" by simp
        moreover from Cons g have "\<forall>l \<in> set ls. \<exists>r. parse_record to_int l = Inr r" by simp
        ultimately show ?thesis using b by blast
      qed
    next
      assume "\<exists>good bad rest'. rest = good @ bad # rest'
        \<and> (\<forall>l \<in> set good. \<exists>r. parse_record to_int l = Inr r)
        \<and> parse_record to_int bad = Inl e"
      then obtain good bad rest' where d: "rest = good @ bad # rest'"
        and g: "\<forall>l \<in> set good. \<exists>r. parse_record to_int l = Inr r"
        and b: "parse_record to_int bad = Inl e" by blast
      from d have "line # rest = (line # good) @ bad # rest'" by simp
      moreover from g Inr have "\<forall>l \<in> set (line # good). \<exists>r. parse_record to_int l = Inr r"
        by (metis set_ConsD)
      ultimately show "\<exists>good bad rest'. line # rest = good @ bad # rest'
        \<and> (\<forall>l \<in> set good. \<exists>r. parse_record to_int l = Inr r)
        \<and> parse_record to_int bad = Inl e" using b by blast
    qed
    with ti' Cons.IH[of ti'] show ?thesis by simp
  qed
qed

lemma read_track_file_Inr:
  "read_track_file to_int content = Inr track_sorted \<longleftrightarrow>
     (\<exists>track_info. read_lines to_int Map.empty (file_lines content) = Inr track_info
        \<and> track_sorted = map_option (sort_key snd) \<circ> track_info)"
  by (auto simp: read_track_file_def split: sum.splits)

lemma read_track_file_Inl:
  "read_track_file to_int content = Inl e \<longleftrightarrow>
     read_lines to_int Map.empty (file_lines content) = Inl e"
  by (auto simp: read_track_file_def split: sum.splits)

lemma read_track_file_lookup:
  assumes "read_track_file to_int content = Inr track_sorted"
    and "track_sorted gene = Some tracks"
  shows "tracks = sort_key snd (tracks_in_order to_int (file_lines content) gene)"
proof -
  from assms(1) obtain track_info where
    r: "read_lines to_int Map.empty (file_lines content) = Inr track_info"
    and s: "track_sorted = map_option (sort_key snd) \<circ> track_info"
    unfolding read_track_file_Inr by blast
  from read_lines_lookup[OF r, of gene] assms(2) s show ?thesis
    by (auto split: if_splits)
qed

lemma chst13_example:
  "read_track_file py_int
      (''CHST13'' @ TAB # ''var1'' @ TAB # ''100'' @ NL #
       ''CHST13'' @ TAB # ''var2'' @ TAB # ''50'' @ [NL])
     = Inr [''CHST13'' \<mapsto> [(''var2'', 50), (''var1'', 100)]]"
  by (simp add: read_track_file_def parse_record_def strip_def py_isspace_def
        py_int_def is_digit_def decimal_value_def)

section \<open>Adjacent markers without repeated entries\<close>

lemma adjacent_spacing_distinct:
  assumes "distinct xs" and "xs = before @ a # b # after"
  shows "(overlap_recursive xs = Some (Inr lanes) \<longrightarrow>
            (\<forall>lane \<in> set lanes. a \<in> set lane \<and> b \<in> set lane \<longrightarrow> 5000 < snd b - snd a))
       \<and> (check_overlap minimum xs = Inr (overlap, not_overlap) \<longrightarrow>
            (b \<in> set not_overlap \<longleftrightarrow> minimum < snd b - snd a)
          \<and> (b \<in> set overlap \<longleftrightarrow> snd b - snd a \<le> minimum))"
proof (intro conjI impI ballI)
  fix lane
  assume run: "overlap_recursive xs = Some (Inr lanes)"
    and lane: "lane \<in> set lanes" and ab: "a \<in> set lane \<and> b \<in> set lane"
  from assms have neq: "a \<noteq> b" by auto
  from overlap_recursive_cases[OF run] obtain ov nov where
    c: "check_overlap 5000 xs = Inr (ov, nov)" and
    r: "if ov = [] then lanes = [nov]
        else \<exists>budget ps'. overlap_loop_passes budget ov [nov] [] = Some (Inr lanes, ps')"
    by blast
  note adj = check_overlap_adjacent[OF c[unfolded assms(2)] assms(1)[unfolded assms(2)]]
  have first: "5000 < snd b - snd a" if "b \<in> set nov"
    using adj(1) that by simp
  show "5000 < snd b - snd a"
  proof (cases "ov = []")
    case True
    with r lane have "lane = nov" by simp
    with ab first show ?thesis by simp
  next
    case False
    with r obtain budget ps' where
      run': "overlap_loop_passes budget ov [nov] [] = Some (Inr lanes, ps')" by auto
    have d: "distinct ov" using check_overlap_distinct[OF c assms(1)] by simp
    have pre: "(\<exists>us vs. ov = us @ a # b # vs) \<and> snd b - snd a \<le> 5000"
      if "a \<in> set ov" "b \<in> set ov"
      using adj(2) adj(3)[OF that] that by simp
    from loop_passes_separate[OF run' d neq pre] obtain new where
      new: "lanes = [nov] @ new" "\<forall>lane \<in> set new. \<not> (a \<in> set lane \<and> b \<in> set lane)"
      by blast
    with lane ab have "lane = nov" by auto
    with ab first show ?thesis by simp
  qed
next
  assume c: "check_overlap minimum xs = Inr (overlap, not_overlap)"
  from check_overlap_adjacent(1)[OF c[unfolded assms(2)] assms(1)[unfolded assms(2)]]
  show "b \<in> set not_overlap \<longleftrightarrow> minimum < snd b - snd a" .
next
  assume c: "check_overlap minimum xs = Inr (overlap, not_overlap)"
  from check_overlap_adjacent(2)[OF c[unfolded assms(2)] assms(1)[unfolded assms(2)]]
  show "b \<in> set overlap \<longleftrightarrow> snd b - snd a \<le> minimum" .
qed

section \<open>The claims about the partitioner\<close>

text \<open>
  Claim C1. When a pass leaves an empty overflow list the iteration stops and no extra
  lane is appended; when it leaves one element, that element is the final lane; for
  \<^verbatim>\<open>[(A,100),(B,200),(C,6000),(D,6050)]\<close> the result is \<^verbatim>\<open>[[A,C],[B,D]]\<close>.

  The code does not do this. On that input the second pass accepts both \<^verbatim>\<open>B\<close> and
  \<^verbatim>\<open>D\<close> and leaves the overflow empty; the loop condition turns false and the
  \<^verbatim>\<open>else\<close> suite of the \<^verbatim>\<open>while\<close> appends the empty overflow as a third lane.
  The guard \<^verbatim>\<open>if overlap:\<close> in front of the loop keeps an empty overflow of the
  first pass out of the result; inside the loop nothing does.
\<close>

theorem C1_trailing_empty_lane:
  "overlap_recursive [(''A'', 100), (''B'', 200), (''C'', 6000), (''D'', 6050)]
     = Some (Inr [[(''A'', 100), (''C'', 6000)], [(''B'', 200), (''D'', 6050)], []])"
  by code_simp

text \<open>
  Claim C2 (completeness). Whenever \<open>overlap_recursive\<close> returns a lane set, the
  markers of all its lanes together are exactly the markers of the input, as a multiset:
  none is lost and none is duplicated. A returned lane set implies that the input had
  at least two markers; the order of the input plays no role.
\<close>

theorem C2_completeness:
  assumes "overlap_recursive xs = Some (Inr lanes)"
  shows "mset (concat lanes) = mset xs"
proof -
  from overlap_recursive_cases[OF assms] obtain ov nov where
    c: "check_overlap 5000 xs = Inr (ov, nov)" and
    r: "if ov = [] then lanes = [nov]
        else \<exists>budget ps'. overlap_loop_passes budget ov [nov] [] = Some (Inr lanes, ps')"
    by blast
  show ?thesis
  proof (cases "ov = []")
    case True
    with r check_overlap_mset[OF c] show ?thesis by simp
  next
    case False
    with r obtain budget ps' where
      "overlap_loop_passes budget ov [nov] [] = Some (Inr lanes, ps')" by auto
    from loop_passes_mset[OF this] check_overlap_mset[OF c] show ?thesis
      by (simp add: ac_simps)
  qed
qed

theorem C2_completeness_witness:
  "overlap_recursive [(''A'', 100), (''B'', 200), (''C'', 6000), (''D'', 6050)]
     = Some (Inr [[(''A'', 100), (''C'', 6000)], [(''B'', 200), (''D'', 6050)], []])
   \<and> mset (concat [[(''A'', 100), (''C'', 6000)], [(''B'', 200), (''D'', 6050)], []])
     = mset [(''A'', 100::int), (''B'', 200), (''C'', 6000), (''D'', 6050)]"
proof -
  have h: "overlap_recursive [(''A'', 100), (''B'', 200), (''C'', 6000), (''D'', 6050)]
     = Some (Inr [[(''A'', 100), (''C'', 6000)], [(''B'', 200), (''D'', 6050)], []])"
    by code_simp
  from h C2_completeness[OF h] show ?thesis by (rule conjI)
qed

text \<open>
  Claim C3 (minimum spacing relative to scan order). Let \<open>b\<close> follow \<open>a\<close>
  immediately in the input. If both land in the same lane of the returned lane set,
  then \<open>snd b - snd a\<close> exceeds 5000, the minimum that \<open>overlap_recursive\<close> passes to
  every scan. And in any single pass, with any minimum, whether \<open>b\<close> is accepted is
  decided by its gap to \<open>a\<close>, the marker scanned just before it, and by nothing else:
  it does not matter into which list \<open>a\<close> went.

  Membership in a lane identifies a marker by its value, so these two statements are
  about inputs without repeated entries. The last three conjuncts extend them to every
  input \<open>ys\<close>: tagging each occurrence with its index gives a list without repeated
  entries, removing the tags gives \<open>ys\<close> back, and the run on \<open>ys\<close> is the run on the
  tagged list with the tags removed from the lanes. Sortedness of the input is not
  needed.
\<close>

theorem C3_scan_adjacent_spacing:
  "(distinct xs \<and> xs = before @ a # b # after \<and> overlap_recursive xs = Some (Inr lanes) \<longrightarrow>
      (\<forall>lane \<in> set lanes. a \<in> set lane \<and> b \<in> set lane \<longrightarrow> 5000 < snd b - snd a))
   \<and> (distinct xs \<and> xs = before @ a # b # after
        \<and> check_overlap minimum xs = Inr (overlap, not_overlap) \<longrightarrow>
          (b \<in> set not_overlap \<longleftrightarrow> minimum < snd b - snd a)
          \<and> (b \<in> set overlap \<longleftrightarrow> snd b - snd a \<le> minimum))
   \<and> distinct (index_tagged ys)
   \<and> map (apfst snd) (index_tagged ys) = ys
   \<and> overlap_recursive ys
       = map_option (map_sum id (map (map (apfst snd)))) (overlap_recursive (index_tagged ys))"
proof (intro conjI impI)
  assume "distinct xs \<and> xs = before @ a # b # after \<and> overlap_recursive xs = Some (Inr lanes)"
  then show "\<forall>lane \<in> set lanes. a \<in> set lane \<and> b \<in> set lane \<longrightarrow> 5000 < snd b - snd a"
    using adjacent_spacing_distinct[of xs before a b after lanes] by blast
next
  assume h: "distinct xs \<and> xs = before @ a # b # after
      \<and> check_overlap minimum xs = Inr (overlap, not_overlap)"
  then show "b \<in> set not_overlap \<longleftrightarrow> minimum < snd b - snd a"
    using adjacent_spacing_distinct[of xs before a b after _ minimum overlap not_overlap]
    by blast
  from h show "b \<in> set overlap \<longleftrightarrow> snd b - snd a \<le> minimum"
    using adjacent_spacing_distinct[of xs before a b after _ minimum overlap not_overlap]
    by blast
next
  show "distinct (index_tagged ys)" by (rule index_tagged_distinct)
  show "map (apfst snd) (index_tagged ys) = ys" by (rule index_tagged_untag)
  show "overlap_recursive ys
       = map_option (map_sum id (map (map (apfst snd)))) (overlap_recursive (index_tagged ys))"
    by (rule index_tagged_run)
qed

theorem C3_scan_adjacent_spacing_witness:
  "distinct [(''A'', 100::int), (''B'', 6000), (''C'', 6050)]
   \<and> overlap_recursive [(''A'', 100), (''B'', 6000), (''C'', 6050)]
       = Some (Inr [[(''A'', 100), (''B'', 6000)], [(''C'', 6050)]])
   \<and> check_overlap 5000 [(''A'', 100), (''B'', 6000), (''C'', 6050)]
       = Inr ([(''C'', 6050)], [(''A'', 100), (''B'', 6000)])
   \<and> (5000::int) < snd (''B'', 6000::int) - snd (''A'', 100::int)"
proof -
  have d: "distinct [(''A'', 100::int), (''B'', 6000), (''C'', 6050)]" by simp
  have e: "[(''A'', 100::int), (''B'', 6000), (''C'', 6050)]
             = [] @ (''A'', 100) # (''B'', 6000) # [(''C'', 6050)]" by simp
  have h: "overlap_recursive [(''A'', 100), (''B'', 6000), (''C'', 6050)]
       = Some (Inr [[(''A'', 100), (''B'', 6000)], [(''C'', 6050)]])" by code_simp
  have c: "check_overlap 5000 [(''A'', 100), (''B'', 6000), (''C'', 6050)]
       = Inr ([(''C'', 6050)], [(''A'', 100), (''B'', 6000)])" by code_simp
  have m: "(''A'', 100::int) \<in> set [(''A'', 100), (''B'', 6000)]
       \<and> (''B'', 6000::int) \<in> set [(''A'', 100), (''B'', 6000)]" by simp
  have l: "[(''A'', 100::int), (''B'', 6000)]
       \<in> set [[(''A'', 100), (''B'', 6000)], [(''C'', 6050)]]" by simp
  from C3_scan_adjacent_spacing[of "[(''A'', 100), (''B'', 6000), (''C'', 6050)]"
      "[]" "(''A'', 100)" "(''B'', 6000)" "[(''C'', 6050)]"
      "[[(''A'', 100), (''B'', 6000)], [(''C'', 6050)]]"] d e h
  have "\<forall>lane \<in> set [[(''A'', 100::int), (''B'', 6000)], [(''C'', 6050)]].
      (''A'', 100) \<in> set lane \<and> (''B'', 6000) \<in> set lane
        \<longrightarrow> 5000 < snd (''B'', 6000::int) - snd (''A'', 100::int)"
    by blast
  from bspec[OF this l] m
  have "(5000::int) < snd (''B'', 6000::int) - snd (''A'', 100::int)" by blast
  with d h c show ?thesis by blast
qed

text \<open>
  Claim C4. The partitioner raises its precondition error exactly when the input has
  fewer than two markers. On an empty or one-element list both \<open>overlap_recursive\<close>
  and \<open>check_overlap\<close> raise \<^verbatim>\<open>AssertionError\<close>. On a list of at least two markers
  \<open>check_overlap\<close> returns and \<open>overlap_recursive\<close> raises nothing, whatever the
  positions are. If moreover the list is sorted with non-negative positions, then
  \<open>overlap_recursive\<close> returns a lane set, and every call of \<open>check_overlap\<close> made on
  the way (the entries of the log) returned as well.
\<close>

theorem C4_precondition_error:
  "(length xs < 2 \<longrightarrow>
      overlap_recursive xs = Some (Inl AssertionError)
      \<and> check_overlap minimum xs = Inl AssertionError)
   \<and> (2 \<le> length xs \<longrightarrow>
        (\<forall>e. overlap_recursive xs \<noteq> Some (Inl e))
        \<and> (\<exists>r. check_overlap minimum xs = Inr r))
   \<and> (2 \<le> length xs \<and> sorted (map snd xs) \<and> (\<forall>t \<in> set xs. 0 \<le> snd t) \<longrightarrow>
        (\<exists>lanes passes.
           overlap_recursive xs = Some (Inr lanes)
           \<and> overlap_recursive_passes (length xs - 1) xs = Some (Inr lanes, passes)
           \<and> (\<forall>p \<in> set passes. \<exists>r. check_overlap 5000 (fst p) = Inr r)))"
proof (intro conjI impI allI)
  assume "length xs < 2"
  then show "overlap_recursive xs = Some (Inl AssertionError)"
    by (simp add: overlap_recursive_def)
next
  assume "length xs < 2"
  then show "check_overlap minimum xs = Inl AssertionError"
    by (simp add: check_overlap_def)
next
  fix e
  assume len: "2 \<le> length xs"
  show "overlap_recursive xs \<noteq> Some (Inl e)"
  proof
    assume a: "overlap_recursive xs = Some (Inl e)"
    from len obtain ov nov where c: "check_overlap 5000 xs = Inr (ov, nov)"
      by (simp add: check_overlap_Inr)
    with a len have "ov \<noteq> []" and "overlap_loop ov [nov] = Some (Inl e)"
      by (auto simp: overlap_recursive_def split: if_splits)
    from loop_passes_complete[OF this(2)] obtain budget ps' where
      "overlap_loop_passes budget ov [nov] [] = Some (Inl e, ps')" by blast
    from loop_passes_no_error[OF this] show False by simp
  qed
next
  assume "2 \<le> length xs"
  then show "\<exists>r. check_overlap minimum xs = Inr r"
    by (simp add: check_overlap_def)
next
  assume a: "2 \<le> length xs \<and> sorted (map snd xs) \<and> (\<forall>t \<in> set xs. 0 \<le> snd t)"
  from recursive_passes_terminates[of xs] a obtain lanes passes where
    run: "overlap_recursive_passes (length xs - 1) xs = Some (Inr lanes, passes)" by blast
  from recursive_passes_shape[OF run] have
    "\<forall>p \<in> set passes. \<exists>r. check_overlap 5000 (fst p) = Inr r" by blast
  with run recursive_passes_sound[OF run]
  show "\<exists>lanes passes.
           overlap_recursive xs = Some (Inr lanes)
           \<and> overlap_recursive_passes (length xs - 1) xs = Some (Inr lanes, passes)
           \<and> (\<forall>p \<in> set passes. \<exists>r. check_overlap 5000 (fst p) = Inr r)"
    by blast
qed

theorem C4_precondition_error_witness:
  "overlap_recursive [(''A'', 50)] = Some (Inl AssertionError)
   \<and> check_overlap 5000 [(''A'', 50)] = Inl AssertionError
   \<and> (\<forall>e. overlap_recursive [(''A'', 100), (''B'', 200)] \<noteq> Some (Inl e))
   \<and> (\<exists>r. check_overlap 5000 [(''A'', 100), (''B'', 200)] = Inr r)
   \<and> (\<exists>lanes. overlap_recursive [(''A'', 100), (''B'', 200)] = Some (Inr lanes))"
proof -
  have short: "length [(''A'', 50::int)] < 2" by simp
  have long: "2 \<le> length [(''A'', 100::int), (''B'', 200)]" by simp
  have valid: "2 \<le> length [(''A'', 100::int), (''B'', 200)]
      \<and> sorted (map snd [(''A'', 100::int), (''B'', 200)])
      \<and> (\<forall>t \<in> set [(''A'', 100::int), (''B'', 200)]. 0 \<le> snd t)" by simp
  from C4_precondition_error[of "[(''A'', 50)]" 5000] short
  have 1: "overlap_recursive [(''A'', 50)] = Some (Inl AssertionError)
      \<and> check_overlap 5000 [(''A'', 50)] = Inl AssertionError" by blast
  from C4_precondition_error[of "[(''A'', 100), (''B'', 200)]" 5000] long
  have 2: "(\<forall>e. overlap_recursive [(''A'', 100), (''B'', 200)] \<noteq> Some (Inl e))
      \<and> (\<exists>r. check_overlap 5000 [(''A'', 100), (''B'', 200)] = Inr r)" by blast
  from C4_precondition_error[of "[(''A'', 100), (''B'', 200)]" 5000] valid
  have 3: "\<exists>lanes. overlap_recursive [(''A'', 100), (''B'', 200)] = Some (Inr lanes)" by blast
  from 1 2 3 show ?thesis by blast
qed

text \<open>
  Claim C5 (progress and termination). For a sorted list of \<open>n \<ge> 2\<close> markers with
  non-negative positions, \<open>overlap_recursive\<close> returns, and it does so within
  \<open>n - 1\<close> calls of \<open>check_overlap\<close>. In every one of these passes the first
  scanned marker is accepted, so the overflow the pass hands on is strictly shorter
  than the list it was fed.
\<close>

theorem C5_progress_termination:
  assumes "2 \<le> length xs" and "sorted (map snd xs)" and "\<forall>t \<in> set xs. 0 \<le> snd t"
  shows "\<exists>lanes passes.
           overlap_recursive xs = Some (Inr lanes)
           \<and> overlap_recursive_passes (length xs - 1) xs = Some (Inr lanes, passes)
           \<and> length passes \<le> length xs - 1
           \<and> (\<forall>(fed, overflow, accepted) \<in> set passes.
                 check_overlap 5000 fed = Inr (overflow, accepted)
                 \<and> length overflow < length fed
                 \<and> accepted \<noteq> [] \<and> hd accepted = hd fed)"
proof -
  from recursive_passes_terminates[OF assms(1,3)] obtain lanes passes where
    run: "overlap_recursive_passes (length xs - 1) xs = Some (Inr lanes, passes)" by blast
  note shape = recursive_passes_shape[OF run]
  from shape have fed_ok:
    "\<forall>p \<in> set passes. check_overlap 5000 (fst p) = Inr (snd p) \<and> set (fst p) \<subseteq> set xs"
    by blast
  have each: "check_overlap 5000 fed = Inr (overflow, accepted)
                 \<and> length overflow < length fed
                 \<and> accepted \<noteq> [] \<and> hd accepted = hd fed"
    if "(fed, overflow, accepted) \<in> set passes" for fed overflow accepted
  proof -
    from bspec[OF fed_ok that] have c: "check_overlap 5000 fed = Inr (overflow, accepted)"
      and sub: "set fed \<subseteq> set xs" by simp_all
    from c have "fed \<noteq> []" by (auto simp: check_overlap_Inr)
    then have "hd fed \<in> set fed" by simp
    with sub assms(3) have "0 \<le> snd (hd fed)" by blast
    then have "5000 < snd (hd fed) + 100000" by simp
    from check_overlap_first_clear[OF c this] c show ?thesis by simp
  qed
  from shape have "length passes \<le> length xs - 1" by simp
  with run recursive_passes_sound[OF run] each show ?thesis by blast
qed

theorem C5_progress_termination_witness:
  "overlap_recursive_passes 3 [(''A'', 100), (''B'', 200), (''C'', 6000), (''D'', 6050)]
     = Some (Inr [[(''A'', 100), (''C'', 6000)], [(''B'', 200), (''D'', 6050)], []],
             [([(''A'', 100), (''B'', 200), (''C'', 6000), (''D'', 6050)],
               [(''B'', 200), (''D'', 6050)], [(''A'', 100), (''C'', 6000)]),
              ([(''B'', 200), (''D'', 6050)], [], [(''B'', 200), (''D'', 6050)])])
   \<and> (\<exists>lanes passes.
        overlap_recursive [(''A'', 100), (''B'', 200), (''C'', 6000), (''D'', 6050)]
          = Some (Inr lanes)
        \<and> overlap_recursive_passes
             (length [(''A'', 100::int), (''B'', 200), (''C'', 6000), (''D'', 6050)] - 1)
             [(''A'', 100), (''B'', 200), (''C'', 6000), (''D'', 6050)] = Some (Inr lanes, passes)
        \<and> length passes \<le> length [(''A'', 100::int), (''B'', 200), (''C'', 6000), (''D'', 6050)] - 1
        \<and> (\<forall>(fed, overflow, accepted) \<in> set passes.
              check_overlap 5000 fed = Inr (overflow, accepted)
              \<and> length overflow < length fed
              \<and> accepted \<noteq> [] \<and> hd accepted = hd fed))"
proof -
  have h1: "2 \<le> length [(''A'', 100::int), (''B'', 200), (''C'', 6000), (''D'', 6050)]"
    by simp
  have h2: "sorted (map snd [(''A'', 100::int), (''B'', 200), (''C'', 6000), (''D'', 6050)])"
    by simp
  have h3: "\<forall>t \<in> set [(''A'', 100::int), (''B'', 200), (''C'', 6000), (''D'', 6050)]. 0 \<le> snd t"
    by simp
  have run: "overlap_recursive_passes 3 [(''A'', 100), (''B'', 200), (''C'', 6000), (''D'', 6050)]
     = Some (Inr [[(''A'', 100), (''C'', 6000)], [(''B'', 200), (''D'', 6050)], []],
             [([(''A'', 100), (''B'', 200), (''C'', 6000), (''D'', 6050)],
               [(''B'', 200), (''D'', 6050)], [(''A'', 100), (''C'', 6000)]),
              ([(''B'', 200), (''D'', 6050)], [], [(''B'', 200), (''D'', 6050)])])"
    by code_simp
  from run C5_progress_termination[OF h1 h2 h3] show ?thesis by (rule conjI)
qed

text \<open>
  Claim C6 as stated: at most \<open>n - 1\<close> lanes for \<open>n\<close> markers, and every lane after
  lane 0 strictly smaller than the overflow fed into the pass that produced it. Both
  parts fail. Two markers one unit apart give two lanes, not one: the first pass
  accepts \<open>A\<close>, and \<open>B\<close>, the single marker left over, is appended as the final lane.
  And for \<^verbatim>\<open>[(A,100),(B,200),(C,6000),(D,6050)]\<close> the second pass is fed the overflow
  \<^verbatim>\<open>[B,D]\<close> and produces the lane \<^verbatim>\<open>[B,D]\<close>, of the same length.
\<close>

theorem C6_lane_count_counterexample:
  "overlap_recursive [(''A'', 0), (''B'', 1)] = Some (Inr [[(''A'', 0)], [(''B'', 1)]])
   \<and> \<not> length [[(''A'', 0::int)], [(''B'', 1)]] \<le> length [(''A'', 0::int), (''B'', 1)] - 1
   \<and> overlap_recursive_passes 3 [(''A'', 100), (''B'', 200), (''C'', 6000), (''D'', 6050)]
       = Some (Inr [[(''A'', 100), (''C'', 6000)], [(''B'', 200), (''D'', 6050)], []],
               [([(''A'', 100), (''B'', 200), (''C'', 6000), (''D'', 6050)],
                 [(''B'', 200), (''D'', 6050)], [(''A'', 100), (''C'', 6000)]),
                ([(''B'', 200), (''D'', 6050)], [], [(''B'', 200), (''D'', 6050)])])
   \<and> \<not> length [(''B'', 200::int), (''D'', 6050)] < length [(''B'', 200::int), (''D'', 6050)]"
proof (intro conjI)
  show "overlap_recursive [(''A'', 0), (''B'', 1)] = Some (Inr [[(''A'', 0)], [(''B'', 1)]])"
    by code_simp
  show "\<not> length [[(''A'', 0::int)], [(''B'', 1)]] \<le> length [(''A'', 0::int), (''B'', 1)] - 1"
    by simp
  show "overlap_recursive_passes 3 [(''A'', 100), (''B'', 200), (''C'', 6000), (''D'', 6050)]
       = Some (Inr [[(''A'', 100), (''C'', 6000)], [(''B'', 200), (''D'', 6050)], []],
               [([(''A'', 100), (''B'', 200), (''C'', 6000), (''D'', 6050)],
                 [(''B'', 200), (''D'', 6050)], [(''A'', 100), (''C'', 6000)]),
                ([(''B'', 200), (''D'', 6050)], [], [(''B'', 200), (''D'', 6050)])])"
    by code_simp
  show "\<not> length [(''B'', 200::int), (''D'', 6050)] < length [(''B'', 200::int), (''D'', 6050)]"
    by simp
qed

text \<open>
  Claim C6, amended. For a sorted list of \<open>n \<ge> 2\<close> markers with non-negative
  positions the lane set has at most \<open>n\<close> lanes. Lane \<open>k\<close> is the accepted list of
  pass \<open>k\<close> and has at most as many markers as the list fed into that pass, which
  for every pass after the first is the overflow of the pass before. A lane beyond the
  last pass, if there is one, is the overflow the last pass left over and has at most
  one marker.
\<close>

theorem C6_lane_count_amended:
  assumes "2 \<le> length xs" and "sorted (map snd xs)" and "\<forall>t \<in> set xs. 0 \<le> snd t"
  shows "\<exists>lanes passes.
           overlap_recursive xs = Some (Inr lanes)
           \<and> overlap_recursive_passes (length xs - 1) xs = Some (Inr lanes, passes)
           \<and> length lanes \<le> length xs
           \<and> length passes \<le> length lanes \<and> length lanes \<le> length passes + 1
           \<and> (\<forall>k < length passes.
                 lanes ! k = snd (snd (passes ! k))
                 \<and> length (lanes ! k) \<le> length (fst (passes ! k)))
           \<and> (\<forall>k. Suc k < length passes \<longrightarrow> fst (passes ! Suc k) = fst (snd (passes ! k)))
           \<and> (length lanes = length passes + 1 \<longrightarrow>
                 last lanes = fst (snd (last passes)) \<and> length (last lanes) \<le> 1)"
proof -
  from recursive_passes_terminates[OF assms(1,3)] obtain lanes passes where
    run: "overlap_recursive_passes (length xs - 1) xs = Some (Inr lanes, passes)" by blast
  note shape = recursive_passes_shape[OF run]
  from shape have n: "length passes \<le> length xs - 1" and ne: "passes \<noteq> []"
    and chain: "map fst passes = butlast (xs # map (fst \<circ> snd) passes)"
    and fed_ok: "\<forall>p \<in> set passes. check_overlap 5000 (fst p) = Inr (snd p) \<and> set (fst p) \<subseteq> set xs"
    and lanes: "lanes = map (snd \<circ> snd) passes
            \<or> lanes = map (snd \<circ> snd) passes @ [last (map (fst \<circ> snd) passes)]"
    and fin: "length (last (map (fst \<circ> snd) passes)) \<le> 1"
    by blast+
  from lanes n assms(1) have 1: "length lanes \<le> length xs" by auto
  from lanes have 2: "length passes \<le> length lanes \<and> length lanes \<le> length passes + 1"
    by auto
  have 3: "lanes ! k = snd (snd (passes ! k)) \<and> length (lanes ! k) \<le> length (fst (passes ! k))"
    if "k < length passes" for k
  proof -
    from lanes that have a: "lanes ! k = snd (snd (passes ! k))"
      by (auto simp: nth_append)
    from that have "passes ! k \<in> set passes" by simp
    from bspec[OF fed_ok this] have "check_overlap 5000 (fst (passes ! k)) = Inr (snd (passes ! k))"
      by simp
    then have "check_overlap 5000 (fst (passes ! k))
                 = Inr (fst (snd (passes ! k)), snd (snd (passes ! k)))" by simp
    from check_overlap_length[OF this] a show ?thesis by simp
  qed
  have 4: "fst (passes ! Suc k) = fst (snd (passes ! k))" if "Suc k < length passes" for k
  proof -
    have "fst (passes ! Suc k) = map fst passes ! Suc k" using that by simp
    also have "\<dots> = butlast (xs # map (fst \<circ> snd) passes) ! Suc k" by (simp only: chain)
    also have "\<dots> = (xs # map (fst \<circ> snd) passes) ! Suc k"
      using that ne by (intro nth_butlast) simp
    also have "\<dots> = fst (snd (passes ! k))" using that by simp
    finally show ?thesis .
  qed
  have 5: "last lanes = fst (snd (last passes)) \<and> length (last lanes) \<le> 1"
    if "length lanes = length passes + 1"
  proof -
    from lanes that have "lanes = map (snd \<circ> snd) passes @ [last (map (fst \<circ> snd) passes)]"
      by auto
    then have "last lanes = last (map (fst \<circ> snd) passes)" by simp
    with fin ne show ?thesis by (simp add: last_map)
  qed
  from run recursive_passes_sound[OF run] 1 2 3 4 5 show ?thesis by blast
qed

theorem C6_lane_count_amended_witness:
  "\<exists>lanes passes.
      overlap_recursive [(''A'', 0), (''B'', 1), (''C'', 2)] = Some (Inr lanes)
      \<and> overlap_recursive_passes (length [(''A'', 0::int), (''B'', 1), (''C'', 2)] - 1)
           [(''A'', 0), (''B'', 1), (''C'', 2)] = Some (Inr lanes, passes)
      \<and> length lanes \<le> length [(''A'', 0::int), (''B'', 1), (''C'', 2)]
      \<and> length passes \<le> length lanes \<and> length lanes \<le> length passes + 1
      \<and> (\<forall>k < length passes.
            lanes ! k = snd (snd (passes ! k))
            \<and> length (lanes ! k) \<le> length (fst (passes ! k)))
      \<and> (\<forall>k. Suc k < length passes \<longrightarrow> fst (passes ! Suc k) = fst (snd (passes ! k)))
      \<and> (length lanes = length passes + 1 \<longrightarrow>
            last lanes = fst (snd (last passes)) \<and> length (last lanes) \<le> 1)"
proof -
  have h1: "2 \<le> length [(''A'', 0::int), (''B'', 1), (''C'', 2)]" by simp
  have h2: "sorted (map snd [(''A'', 0::int), (''B'', 1), (''C'', 2)])" by simp
  have h3: "\<forall>t \<in> set [(''A'', 0::int), (''B'', 1), (''C'', 2)]. 0 \<le> snd t" by simp
  from C6_lane_count_amended[OF h1 h2 h3] show ?thesis .
qed

text \<open>
  Claim C9 as stated: for every minimum, a first marker with a non-negative position is
  classified as clear. The sentinel is the constant \<open>-100000\<close>, whatever the minimum
  is; with \<^verbatim>\<open>minimum=100000\<close> a first marker at position 0 has gap
  \<open>100000 \<le> minimum\<close> and goes to the overflow list.
\<close>

theorem C9_sentinel_counterexample:
  "(0::int) \<le> snd (''A'', 0::int)
   \<and> check_overlap 100000 [(''A'', 0), (''B'', 1)] = Inr ([(''A'', 0), (''B'', 1)], [])"
  by (simp add: check_overlap_def)

text \<open>
  Claim C9, amended (sentinel adequacy). The first scanned marker is classified as
  clear exactly when \<open>minimum < position + 100000\<close>; the rest of the list is then
  scanned from that marker's position. In particular, for every minimum below
  \<open>100000\<close> (the default 5000 among them, the only value \<open>overlap_recursive\<close> uses)
  and every first marker with a non-negative position, the first marker heads
  \<open>not_overlap\<close> and the overflow holds markers of the rest of the list only.
\<close>

theorem C9_sentinel_amended:
  assumes "check_overlap minimum (t # ts) = Inr (overlap, not_overlap)"
  shows "(minimum < snd t + 100000 \<longrightarrow>
            overlap = fst (scan_tracks minimum (snd t) [] [] ts)
            \<and> not_overlap = t # snd (scan_tracks minimum (snd t) [] [] ts))
       \<and> (snd t + 100000 \<le> minimum \<longrightarrow>
            overlap = t # fst (scan_tracks minimum (snd t) [] [] ts)
            \<and> not_overlap = snd (scan_tracks minimum (snd t) [] [] ts))
       \<and> (0 \<le> snd t \<and> minimum < 100000 \<longrightarrow>
            not_overlap \<noteq> [] \<and> hd not_overlap = t \<and> length overlap \<le> length ts)"
proof -
  from assms have
    ov: "overlap = pick False (clear_flags minimum (- 100000) (t # ts)) (t # ts)" and
    nov: "not_overlap = pick True (clear_flags minimum (- 100000) (t # ts)) (t # ts)"
    by (simp_all add: check_overlap_Inr)
  have rest: "scan_tracks minimum (snd t) [] [] ts
      = (pick False (clear_flags minimum (snd t) ts) ts,
         pick True (clear_flags minimum (snd t) ts) ts)"
    by (simp add: scan_tracks_flags)
  have a: "overlap = fst (scan_tracks minimum (snd t) [] [] ts)
            \<and> not_overlap = t # snd (scan_tracks minimum (snd t) [] [] ts)"
    if "minimum < snd t + 100000"
    using that ov nov rest by simp
  have b: "overlap = t # fst (scan_tracks minimum (snd t) [] [] ts)
            \<and> not_overlap = snd (scan_tracks minimum (snd t) [] [] ts)"
    if "snd t + 100000 \<le> minimum"
    using that ov nov rest by simp
  have c: "not_overlap \<noteq> [] \<and> hd not_overlap = t \<and> length overlap \<le> length ts"
    if "0 \<le> snd t \<and> minimum < 100000"
  proof -
    from that have "minimum < snd t + 100000" by simp
    from a[OF this] rest show ?thesis by (simp add: length_pick_le)
  qed
  from a b c show ?thesis by blast
qed

theorem C9_sentinel_amended_witness:
  "check_overlap 5000 [(''A'', 0), (''B'', 1)] = Inr ([(''B'', 1)], [(''A'', 0)])
   \<and> [(''A'', 0::int)] \<noteq> [] \<and> hd [(''A'', 0::int)] = (''A'', 0)
   \<and> length [(''B'', 1::int)] \<le> length [(''B'', 1::int)]"
proof -
  have h: "check_overlap 5000 [(''A'', 0), (''B'', 1)] = Inr ([(''B'', 1)], [(''A'', 0)])"
    by (simp add: check_overlap_def)
  have pre: "0 \<le> snd (''A'', 0::int) \<and> (5000::int) < 100000" by simp
  from C9_sentinel_amended[OF h] pre
  have "[(''A'', 0::int)] \<noteq> [] \<and> hd [(''A'', 0::int)] = (''A'', 0)
        \<and> length [(''B'', 1::int)] \<le> length [(''B'', 1::int)]" by blast
  with h show ?thesis by blast
qed

text \<open>
  Claim C10. For every list of at least two markers and every minimum,
  \<open>check_overlap\<close> returns two lists that split the input by position: there is one
  flag per input position, \<open>not_overlap\<close> holds the markers at the positions flagged
  \<open>True\<close> and \<open>overlap\<close> those flagged \<open>False\<close>, both in input order. So each
  list is a subsequence of the input, every input position goes to exactly one of them,
  merging them back by the flags gives the input, and together they have the input's
  markers as a multiset.
\<close>

theorem C10_order_preserving_partition:
  assumes "2 \<le> length xs"
  shows "\<exists>overlap not_overlap flags.
           check_overlap minimum xs = Inr (overlap, not_overlap)
           \<and> length flags = length xs
           \<and> not_overlap = pick True flags xs
           \<and> overlap = pick False flags xs
           \<and> subseq overlap xs \<and> subseq not_overlap xs
           \<and> interleave flags not_overlap overlap = xs
           \<and> mset overlap + mset not_overlap = mset xs"
proof -
  let ?flags = "clear_flags minimum (- 100000) xs"
  from assms have "check_overlap minimum xs = Inr (pick False ?flags xs, pick True ?flags xs)"
    by (simp add: check_overlap_Inr)
  moreover have "length ?flags = length xs" by simp
  moreover have "subseq (pick False ?flags xs) xs" "subseq (pick True ?flags xs) xs"
    by (rule subseq_pick)+
  moreover have "interleave ?flags (pick True ?flags xs) (pick False ?flags xs) = xs"
    by (simp add: interleave_pick)
  moreover have "mset (pick False ?flags xs) + mset (pick True ?flags xs) = mset xs"
    by (simp add: mset_pick)
  ultimately show ?thesis by blast
qed

theorem C10_order_preserving_partition_witness:
  "\<exists>overlap not_overlap flags.
      check_overlap 5000 [(''A'', 100), (''B'', 200), (''C'', 6000), (''D'', 6050)]
        = Inr (overlap, not_overlap)
      \<and> length flags = length [(''A'', 100::int), (''B'', 200), (''C'', 6000), (''D'', 6050)]
      \<and> not_overlap = pick True flags [(''A'', 100), (''B'', 200), (''C'', 6000), (''D'', 6050)]
      \<and> overlap = pick False flags [(''A'', 100), (''B'', 200), (''C'', 6000), (''D'', 6050)]
      \<and> subseq overlap [(''A'', 100), (''B'', 200), (''C'', 6000), (''D'', 6050)]
      \<and> subseq not_overlap [(''A'', 100), (''B'', 200), (''C'', 6000), (''D'', 6050)]
      \<and> interleave flags not_overlap overlap
          = [(''A'', 100), (''B'', 200), (''C'', 6000), (''D'', 6050)]
      \<and> mset overlap + mset not_overlap
          = mset [(''A'', 100), (''B'', 200), (''C'', 6000), (''D'', 6050)]"
proof -
  have h: "2 \<le> length [(''A'', 100::int), (''B'', 200), (''C'', 6000), (''D'', 6050)]"
    by simp
  from C10_order_preserving_partition[OF h] show ?thesis .
qed

section \<open>The claims about the loader\<close>

text \<open>
  Claim C7 (loader sort correctness). When the load succeeds, the marker list of every
  gene present in the result is sorted ascending by position, and for each position the
  markers at that position appear in the order of their lines in the file; the list
  holds exactly the markers of that gene's lines. In particular the two-line input
  \<^verbatim>\<open>CHST13 var1 100\<close>, \<^verbatim>\<open>CHST13 var2 50\<close> (tab-separated, each line ended by a
  newline) yields \<^verbatim>\<open>{"CHST13": [(var2,50),(var1,100)]}\<close>.
\<close>

theorem C7_loader_sorted_stable:
  "(read_track_file to_int content = Inr track_sorted \<and> track_sorted gene = Some tracks \<longrightarrow>
      sorted (map snd tracks)
      \<and> (\<forall>pos. filter (\<lambda>t. snd t = pos) tracks
               = filter (\<lambda>t. snd t = pos) (tracks_in_order to_int (file_lines content) gene))
      \<and> mset tracks = mset (tracks_in_order to_int (file_lines content) gene))
   \<and> read_track_file py_int
        (''CHST13'' @ TAB # ''var1'' @ TAB # ''100'' @ NL #
         ''CHST13'' @ TAB # ''var2'' @ TAB # ''50'' @ [NL])
       = Inr [''CHST13'' \<mapsto> [(''var2'', 50), (''var1'', 100)]]"
proof (intro conjI impI)
  assume a: "read_track_file to_int content = Inr track_sorted \<and> track_sorted gene = Some tracks"
  then have t: "tracks = sort_key snd (tracks_in_order to_int (file_lines content) gene)"
    using read_track_file_lookup by blast
  show "sorted (map snd tracks)" unfolding t by (rule sorted_sort_key)
  show "\<forall>pos. filter (\<lambda>t. snd t = pos) tracks
               = filter (\<lambda>t. snd t = pos) (tracks_in_order to_int (file_lines content) gene)"
    unfolding t by (simp add: sort_key_stable)
  show "mset tracks = mset (tracks_in_order to_int (file_lines content) gene)"
    unfolding t by simp
next
  show "read_track_file py_int
        (''CHST13'' @ TAB # ''var1'' @ TAB # ''100'' @ NL #
         ''CHST13'' @ TAB # ''var2'' @ TAB # ''50'' @ [NL])
       = Inr [''CHST13'' \<mapsto> [(''var2'', 50), (''var1'', 100)]]"
    by (rule chst13_example)
qed

theorem C7_loader_sorted_stable_witness:
  "read_track_file py_int
      (''G'' @ TAB # ''v1'' @ TAB # ''7'' @ NL # ''G'' @ TAB # ''v2'' @ TAB # ''3'' @ NL #
       ''G'' @ TAB # ''v3'' @ TAB # ''7'' @ [NL])
     = Inr [''G'' \<mapsto> [(''v2'', 3), (''v1'', 7), (''v3'', 7)]]
   \<and> sorted (map snd [(''v2'', 3::int), (''v1'', 7), (''v3'', 7)])
   \<and> filter (\<lambda>t. snd t = 7) [(''v2'', 3::int), (''v1'', 7), (''v3'', 7)]
       = filter (\<lambda>t. snd t = 7)
           (tracks_in_order py_int
              (file_lines (''G'' @ TAB # ''v1'' @ TAB # ''7'' @ NL # ''G'' @ TAB # ''v2'' @ TAB # ''3'' @ NL #
                 ''G'' @ TAB # ''v3'' @ TAB # ''7'' @ [NL])) ''G'')"
proof -
  have h: "read_track_file py_int
      (''G'' @ TAB # ''v1'' @ TAB # ''7'' @ NL # ''G'' @ TAB # ''v2'' @ TAB # ''3'' @ NL #
       ''G'' @ TAB # ''v3'' @ TAB # ''7'' @ [NL])
     = Inr [''G'' \<mapsto> [(''v2'', 3), (''v1'', 7), (''v3'', 7)]]"
    by (simp add: read_track_file_def parse_record_def strip_def py_isspace_def
        py_int_def is_digit_def decimal_value_def)
  have g: "[''G'' \<mapsto> [(''v2'', 3::int), (''v1'', 7), (''v3'', 7)]] ''G''
             = Some [(''v2'', 3), (''v1'', 7), (''v3'', 7)]" by simp
  from C7_loader_sorted_stable[of py_int _ _ "''G''" "[(''v2'', 3), (''v1'', 7), (''v3'', 7)]"] h g
  have "sorted (map snd [(''v2'', 3::int), (''v1'', 7), (''v3'', 7)])
      \<and> (\<forall>pos. filter (\<lambda>t. snd t = pos) [(''v2'', 3::int), (''v1'', 7), (''v3'', 7)]
       = filter (\<lambda>t. snd t = pos)
           (tracks_in_order py_int
              (file_lines (''G'' @ TAB # ''v1'' @ TAB # ''7'' @ NL # ''G'' @ TAB # ''v2'' @ TAB # ''3'' @ NL #
                 ''G'' @ TAB # ''v3'' @ TAB # ''7'' @ [NL])) ''G''))"
    by blast
  with h show ?thesis by blast
qed

text \<open>
  Claim C8 as stated: every record that does not have exactly three tab-separated
  fields raises, also one with more than three. The code reads \<^verbatim>\<open>data[0]\<close>,
  \<^verbatim>\<open>data[1]\<close> and \<^verbatim>\<open>data[2]\<close> and never looks at the number of fields: a
  record with four fields is loaded like the record made of its first three.
\<close>

theorem C8_loader_fail_fast_counterexample:
  "length (split TAB (strip (''A'' @ TAB # ''b'' @ TAB # ''1'' @ TAB # ''x'' @ [NL]))) = 4
   \<and> read_track_file py_int (''A'' @ TAB # ''b'' @ TAB # ''1'' @ TAB # ''x'' @ [NL])
       = Inr [''A'' \<mapsto> [(''b'', 1)]]"
  by (simp add: read_track_file_def parse_record_def strip_def py_isspace_def
        py_int_def is_digit_def decimal_value_def)

text \<open>
  Claim C8, amended. The load fails exactly when some record is malformed, and then
  with the exception of the first such record; a failed load returns the exception and
  no dictionary. A record is malformed when it has fewer than three tab-separated
  fields after stripping (\<^verbatim>\<open>IndexError\<close>) or when \<^verbatim>\<open>int\<close> rejects its third
  field (\<^verbatim>\<open>ValueError\<close>). A record with three or more fields whose third field is
  an integer is accepted, and the fields after the third are ignored.
\<close>

theorem C8_loader_fail_fast_amended:
  "(read_track_file to_int content = Inl e \<longleftrightarrow>
      (\<exists>good bad rest. file_lines content = good @ bad # rest
         \<and> (\<forall>line \<in> set good. \<exists>r. parse_record to_int line = Inr r)
         \<and> parse_record to_int bad = Inl e))
   \<and> (length (split TAB (strip line)) < 3 \<longrightarrow> parse_record to_int line = Inl IndexError)
   \<and> (3 \<le> length (split TAB (strip line)) \<and> to_int (split TAB (strip line) ! 2) = None \<longrightarrow>
        parse_record to_int line = Inl ValueError)
   \<and> (3 \<le> length (split TAB (strip line)) \<and> to_int (split TAB (strip line) ! 2) = Some p \<longrightarrow>
        parse_record to_int line
          = Inr (split TAB (strip line) ! 0, split TAB (strip line) ! 1, p))"
proof (intro conjI impI)
  show "read_track_file to_int content = Inl e \<longleftrightarrow>
      (\<exists>good bad rest. file_lines content = good @ bad # rest
         \<and> (\<forall>line \<in> set good. \<exists>r. parse_record to_int line = Inr r)
         \<and> parse_record to_int bad = Inl e)"
    unfolding read_track_file_Inl by (rule read_lines_error)
next
  assume "length (split TAB (strip line)) < 3"
  then show "parse_record to_int line = Inl IndexError"
    by (auto simp: parse_record_def Let_def)
next
  assume "3 \<le> length (split TAB (strip line)) \<and> to_int (split TAB (strip line) ! 2) = None"
  then show "parse_record to_int line = Inl ValueError"
    by (auto simp: parse_record_def Let_def)
next
  assume "3 \<le> length (split TAB (strip line)) \<and> to_int (split TAB (strip line) ! 2) = Some p"
  then show "parse_record to_int line
          = Inr (split TAB (strip line) ! 0, split TAB (strip line) ! 1, p)"
    by (auto simp: parse_record_def Let_def)
qed

theorem C8_loader_fail_fast_amended_witness:
  "read_track_file py_int (''A'' @ TAB # ''b'' @ TAB # ''1'' @ NL # ''A'' @ TAB # ''b'' @ NL #
       ''A'' @ TAB # ''c'' @ TAB # ''x'' @ [NL]) = Inl IndexError
   \<and> parse_record py_int (''A'' @ TAB # ''b'' @ [NL]) = Inl IndexError
   \<and> parse_record py_int (''A'' @ TAB # ''c'' @ TAB # ''x'' @ [NL]) = Inl ValueError
   \<and> parse_record py_int (''A'' @ TAB # ''b'' @ TAB # ''1'' @ TAB # ''x'' @ [NL])
       = Inr (''A'', ''b'', 1)"
proof -
  have lines: "file_lines (''A'' @ TAB # ''b'' @ TAB # ''1'' @ NL # ''A'' @ TAB # ''b'' @ NL #
       ''A'' @ TAB # ''c'' @ TAB # ''x'' @ [NL])
     = [''A'' @ TAB # ''b'' @ TAB # ''1'' @ [NL]] @ (''A'' @ TAB # ''b'' @ [NL])
         # [''A'' @ TAB # ''c'' @ TAB # ''x'' @ [NL]]"
    by simp
  have short: "length (split TAB (strip (''A'' @ TAB # ''b'' @ [NL]))) < 3"
    by (simp add: strip_def py_isspace_def)
  have noint: "3 \<le> length (split TAB (strip (''A'' @ TAB # ''c'' @ TAB # ''x'' @ [NL])))
      \<and> py_int (split TAB (strip (''A'' @ TAB # ''c'' @ TAB # ''x'' @ [NL])) ! 2) = None"
    by (simp add: strip_def py_isspace_def py_int_def is_digit_def)
  have four: "3 \<le> length (split TAB (strip (''A'' @ TAB # ''b'' @ TAB # ''1'' @ TAB # ''x'' @ [NL])))
      \<and> py_int (split TAB (strip (''A'' @ TAB # ''b'' @ TAB # ''1'' @ TAB # ''x'' @ [NL])) ! 2)
          = Some 1"
    by (simp add: strip_def py_isspace_def py_int_def is_digit_def decimal_value_def)
  have good: "\<forall>line \<in> set [''A'' @ TAB # ''b'' @ TAB # ''1'' @ [NL]].
      \<exists>r. parse_record py_int line = Inr r"
    by (simp add: parse_record_def strip_def py_isspace_def py_int_def is_digit_def
          decimal_value_def)
  from C8_loader_fail_fast_amended[of py_int _ _ "''A'' @ TAB # ''b'' @ [NL]"] short
  have 2: "parse_record py_int (''A'' @ TAB # ''b'' @ [NL]) = Inl IndexError" by blast
  from C8_loader_fail_fast_amended[of py_int _ _ "''A'' @ TAB # ''c'' @ TAB # ''x'' @ [NL]"] noint
  have 3: "parse_record py_int (''A'' @ TAB # ''c'' @ TAB # ''x'' @ [NL]) = Inl ValueError"
    by blast
  from C8_loader_fail_fast_amended[of py_int _ _
      "''A'' @ TAB # ''b'' @ TAB # ''1'' @ TAB # ''x'' @ [NL]" 1] four
  have 4: "parse_record py_int (''A'' @ TAB # ''b'' @ TAB # ''1'' @ TAB # ''x'' @ [NL])
       = Inr (''A'', ''b'', 1)"
    by (simp add: strip_def py_isspace_def)
  from lines good 2 have "\<exists>good bad rest.
      file_lines (''A'' @ TAB # ''b'' @ TAB # ''1'' @ NL # ''A'' @ TAB # ''b'' @ NL #
       ''A'' @ TAB # ''c'' @ TAB # ''x'' @ [NL]) = good @ bad # rest
      \<and> (\<forall>line \<in> set good. \<exists>r. parse_record py_int line = Inr r)
      \<and> parse_record py_int bad = Inl IndexError" by blast
  with C8_loader_fail_fast_amended[of py_int
      "''A'' @ TAB # ''b'' @ TAB # ''1'' @ NL # ''A'' @ TAB # ''b'' @ NL #
       ''A'' @ TAB # ''c'' @ TAB # ''x'' @ [NL]" IndexError]
  have 1: "read_track_file py_int (''A'' @ TAB # ''b'' @ TAB # ''1'' @ NL # ''A'' @ TAB # ''b'' @ NL #
       ''A'' @ TAB # ''c'' @ TAB # ''x'' @ [NL]) = Inl IndexError" by blast
  from 1 2 3 4 show ?thesis by blast
qed

end
